theory Spec2Isabelle
  imports
    Main
    "HOL-Library.AList"
    "HOL-Library.Char_ord"
    "HOL-Library.List_Lexorder"
    "HOL-Library.Product_Lexorder"
begin

section \<open>The ODD-STh kernel of GraKeL: \<^verbatim>\<open>grakel/kernels/odd_sth.py\<close>\<close>

subsection \<open>Python values\<close>

text \<open>
  The exceptions the module can raise. \<open>ValueError\<close> is the only one the module raises
  itself (\<^verbatim>\<open>raise ValueError(...)\<close> in \<^verbatim>\<open>dag\<close> and \<^verbatim>\<open>odd\<close>); the others come from a
  failed subscript, attribute or operator.
\<close>

datatype error = ValueError | KeyError | IndexError | TypeError | AttributeError

text \<open>
  A Python \<^verbatim>\<open>dict\<close> is an association list in insertion order: \<open>map_of\<close> reads a key,
  \<open>AList.update\<close> overwrites the value of a key in place or appends a new key at the end,
  as \<^verbatim>\<open>d[k] = v\<close> does. A \<^verbatim>\<open>set\<close> is the list of its members in iteration order, without
  repetitions. Labels are Python strings, ordered as Python orders them (by code point,
  lexicographically), and \<^verbatim>\<open>str\<close> is the identity on them.
\<close>

type_synonym ('k, 'v) dict = "('k \<times> 'v) list"

subsection \<open>The graph collaborator\<close>

text \<open>
  Modelled from the spec: the class \<^verbatim>\<open>graph\<close> of \<^verbatim>\<open>grakel/graph.py\<close>, of which the
  kernel uses three operations ("enumerate all vertices of a graph; enumerate neighbors of
  a given vertex; look up the label of a given vertex"). A vertex without an adjacency
  entry has no neighbours.
\<close>

record 'v graph =
  get_vertices :: "'v list"
  adjacency :: "('v, 'v list) dict"
  get_labels :: "('v, string) dict"

definition neighbors :: "'v graph \<Rightarrow> 'v \<Rightarrow> 'v list" where
  "neighbors g u = (case map_of (adjacency g) u of None \<Rightarrow> [] | Some ns \<Rightarrow> ns)"

subsection \<open>\<^verbatim>\<open>dag\<close>: breadth-first extraction\<close>

text \<open>
  The body of \<^verbatim>\<open>for n in g.neighbors(u)\<close>, on the state \<open>(vertices, edges[u], q)\<close>:
  an unseen neighbour is appended to \<open>edges[u]\<close>, enqueued and recorded at \<open>level + 1\<close>;
  a seen one whose recorded level is at least \<open>level + 1\<close> is appended to \<open>edges[u]\<close> only.
\<close>

type_synonym 'v bfs = "('v, int) dict \<times> 'v list \<times> ('v \<times> int) list"

definition dag_visit :: "int \<Rightarrow> 'v \<Rightarrow> 'v bfs \<Rightarrow> 'v bfs" where
  "dag_visit level n s =
     (case s of (vertices, eu, q) \<Rightarrow>
        (case map_of vertices n of
           None \<Rightarrow> (AList.update n (level + 1) vertices, eu @ [n], q @ [(n, level + 1)])
         | Some ln \<Rightarrow>
             if ln \<ge> level + 1 then (vertices, eu @ [n], q) else (vertices, eu, q)))"

text \<open>What bounds the traversal: the vertices that occur in some adjacency list and are
  not recorded yet, and the queue.\<close>

definition unseen :: "'v graph \<Rightarrow> ('v, int) dict \<Rightarrow> nat" where
  "unseen g vertices =
     length (filter (\<lambda>x. map_of vertices x = None) (concat (map snd (adjacency g))))"

lemma dag_visit_unseen:
  "map_of vs n = None \<Longrightarrow>
   dag_visit level n (vs, eu, q)
     = (AList.update n (level + 1) vs, eu @ [n], q @ [(n, level + 1)])"
  by (simp add: dag_visit_def)

lemma dag_visit_seen:
  "map_of vs n = Some ln \<Longrightarrow>
   dag_visit level n (vs, eu, q) = (vs, if ln \<ge> level + 1 then eu @ [n] else eu, q)"
  by (simp add: dag_visit_def)

lemma dag_visit_fold_measure:
  "set ns \<subseteq> set (concat (map snd (adjacency g))) \<Longrightarrow>
   fold (dag_visit level) ns (vs, eu, q) = (vs', eu', q') \<Longrightarrow>
   unseen g vs' + length q' \<le> unseen g vs + length q"
proof (induction ns arbitrary: vs eu q)
  case Nil
  then show ?case by simp
next
  case (Cons n ns)
  show ?case
  proof (cases "map_of vs n")
    case None
    let ?U = "concat (map snd (adjacency g))"
    let ?vs1 = "AList.update n (level + 1) vs"
    from Cons.prems(1) have nU: "n \<in> set ?U" by simp
    have eq: "filter (\<lambda>x. map_of ?vs1 x = None) ?U
              = filter (\<lambda>x. x \<noteq> n) (filter (\<lambda>x. map_of vs x = None) ?U)"
      by (auto simp: update_conv' intro!: filter_cong)
    have "n \<in> set (filter (\<lambda>x. map_of vs x = None) ?U)" using nU None by simp
    then have "length (filter (\<lambda>x. x \<noteq> n) (filter (\<lambda>x. map_of vs x = None) ?U))
               < length (filter (\<lambda>x. map_of vs x = None) ?U)"
      by (rule length_filter_less) simp
    then have less: "unseen g ?vs1 < unseen g vs" unfolding unseen_def eq .
    from Cons.prems(2)
    have "fold (dag_visit level) ns (?vs1, eu @ [n], q @ [(n, level + 1)]) = (vs', eu', q')"
      by (simp add: dag_visit_unseen [OF None])
    from Cons.IH [OF _ this] Cons.prems(1)
    have "unseen g vs' + length q' \<le> unseen g ?vs1 + length (q @ [(n, level + 1)])" by simp
    with less show ?thesis by simp
  next
    case (Some ln)
    from Cons.prems(2)
    have "fold (dag_visit level) ns (vs, if ln \<ge> level + 1 then eu @ [n] else eu, q)
            = (vs', eu', q')"
      by (simp add: dag_visit_seen [OF Some])
    from Cons.IH [OF _ this] Cons.prems(1) show ?thesis by simp
  qed
qed

lemma neighbors_subset: "set (neighbors g u) \<subseteq> set (concat (map snd (adjacency g)))"
proof (cases "map_of (adjacency g) u")
  case None
  then show ?thesis by (simp add: neighbors_def)
next
  case (Some ns)
  then have "(u, ns) \<in> set (adjacency g)" by (rule map_of_SomeD)
  then have "set ns \<subseteq> (\<Union>p\<in>set (adjacency g). set (snd p))" by force
  with Some show ?thesis by (simp add: neighbors_def)
qed

text \<open>
  The \<^verbatim>\<open>while len(q) > 0\<close> loop. \<open>h\<close> is the bound as the loop compares it, \<open>-1\<close> when
  the caller gave none. \<^verbatim>\<open>break\<close> leaves the loop with the dictionaries as they are.
\<close>

function dag_loop ::
  "'v graph \<Rightarrow> int \<Rightarrow> ('v \<times> int) list \<Rightarrow> ('v, int) dict \<Rightarrow> ('v, 'v list) dict
     \<Rightarrow> ('v, int) dict \<times> ('v, 'v list) dict" where
  "dag_loop g h [] vertices edges = (vertices, edges)"
| "dag_loop g h ((u, level) # q) vertices edges =
     (if level = h then (vertices, edges)
      else
        (case fold (dag_visit level) (neighbors g u)
                (vertices, (case map_of edges u of None \<Rightarrow> [] | Some eu \<Rightarrow> eu), q) of
           (vertices', eu', q') \<Rightarrow> dag_loop g h q' vertices' (AList.update u eu' edges)))"
  by pat_completeness auto
termination
proof (relation "measure (\<lambda>(g, h, q, vertices, edges). unseen g vertices + length q)",
    goal_cases)
  case 1
  show ?case by simp
next
  case (2 g h u level q vertices edges x y xa ya)
  then have "fold (dag_visit level) (neighbors g u)
                (vertices, (case map_of edges u of None \<Rightarrow> [] | Some eu \<Rightarrow> eu), q) = (x, xa, ya)"
    by simp
  from dag_visit_fold_measure [OF neighbors_subset this]
  show ?case by simp
qed

text \<open>
  \<^verbatim>\<open>dag(v, g, h)\<close>. The result's vertex set lists the vertices in the order they were
  recorded; Python fixes no iteration order for a set, and what is proved below of a vertex
  collection holds for every order of its members.
\<close>

definition dag :: "'v \<Rightarrow> 'v graph \<Rightarrow> int option \<Rightarrow> error + ('v list \<times> ('v, 'v list) dict)" where
  "dag v g h =
     (case (case h of None \<Rightarrow> Inr (- 1)
            | Some h' \<Rightarrow> if h' \<le> 0 then Inl ValueError else Inr h') of
        Inl e \<Rightarrow> Inl e
      | Inr hb \<Rightarrow>
          (case dag_loop g hb [(v, 0)] [(v, 0)] [] of
             (vertices, edges) \<Rightarrow> Inr (map fst vertices, edges)))"

subsection \<open>\<^verbatim>\<open>odd\<close>: Kahn's ordering with label tie-break\<close>

text \<open>
  \<^verbatim>\<open>xs.sort(key=f)\<close> and \<^verbatim>\<open>sorted(xs, key=f)\<close>: Python computes the key of every
  element first (a failing key raises before anything is moved), then sorts stably on the
  keys. \<open>sort_key\<close> is the stable insertion sort.
\<close>

definition sort_by :: "('a \<Rightarrow> 'k::linorder option) \<Rightarrow> 'a list \<Rightarrow> error + 'a list" where
  "sort_by key xs =
     (case those (map key xs) of
        None \<Rightarrow> Inl KeyError
      | Some ks \<Rightarrow> Inr (map snd (sort_key fst (zip ks xs))))"

text \<open>The key \<^verbatim>\<open>lambda x: (ordering[x], labels[x])\<close>; tuples compare lexicographically.\<close>

definition rank_key :: "('v, int) dict \<Rightarrow> ('v, string) dict \<Rightarrow> 'v \<Rightarrow> (int \<times> string) option" where
  "rank_key ordering' labels x =
     (case map_of ordering' x of
        None \<Rightarrow> None
      | Some r \<Rightarrow> (case map_of labels x of None \<Rightarrow> None | Some l \<Rightarrow> Some (r, l)))"

text \<open>
  The vertex collection handed to \<^verbatim>\<open>odd\<close>: a set, a dict whose keys are the vertices,
  or a value of any other type.
\<close>

datatype ('v, 'a) vcoll = PySet "'v list" | PyDict "('v, 'a) dict" | PyOther

text \<open>Step 1, the body of \<^verbatim>\<open>for v in e\<close>: count the edge into \<open>v\<close> and discard \<open>v\<close>
  from the zero in-degree set.\<close>

definition count_edge :: "'v \<Rightarrow> ('v, int) dict \<times> 'v list \<Rightarrow> ('v, int) dict \<times> 'v list" where
  "count_edge v s =
     (case s of (indegrees, zero_indegrees) \<Rightarrow>
        ((case map_of indegrees v of
            None \<Rightarrow> AList.update v 1 indegrees
          | Some c \<Rightarrow> AList.update v (c + 1) indegrees),
         removeAll v zero_indegrees))"

text \<open>Step 3, the body of \<^verbatim>\<open>for k in edges[e]\<close>.\<close>

definition relax :: "'v \<Rightarrow> ('v, int) dict \<times> 'v list \<Rightarrow> ('v, int) dict \<times> 'v list" where
  "relax k s =
     (case s of (indegrees, q) \<Rightarrow>
        (case map_of indegrees k of
           None \<Rightarrow> (indegrees, q)
         | Some c \<Rightarrow>
             if c = 1 then (AList.delete k indegrees, q @ [k])
             else (AList.update k (c - 1) indegrees, q)))"

lemma sort_by_length: "sort_by key xs = Inr ys \<Longrightarrow> length ys = length xs"
proof -
  have len: "those zs = Some ks \<Longrightarrow> length ks = length zs" for zs :: "'b option list" and ks
    by (induction zs arbitrary: ks) (auto split: option.splits)
  assume "sort_by key xs = Inr ys"
  then obtain ks where ks: "those (map key xs) = Some ks"
    and ys: "ys = map snd (sort_key fst (zip ks xs))"
    by (auto simp: sort_by_def split: option.splits)
  from len [OF ks] have "length ks = length xs" by simp
  with ys show ?thesis by simp
qed

lemma relax_fold_measure:
  "fold relax ks (ind, q) = (ind', q') \<Longrightarrow> length q' + length ind' \<le> length q + length ind"
proof (induction ks arbitrary: ind q)
  case Nil
  then show ?case by simp
next
  case (Cons k ks)
  obtain ind1 q1 where step: "relax k (ind, q) = (ind1, q1)" by (cases "relax k (ind, q)")
  have "length q1 + length ind1 \<le> length q + length ind"
  proof (cases "map_of ind k")
    case None
    with step show ?thesis by (simp add: relax_def)
  next
    case (Some c)
    then have "(k, c) \<in> set ind" by (rule map_of_SomeD)
    then have k: "k \<in> fst ` set ind" by force
    then have "length (AList.delete k ind) < length ind"
      by (auto simp: AList.delete_eq intro!: length_filter_less)
    moreover have "length (AList.update k (c - 1) ind) = length ind"
    proof -
      have "map fst (AList.update k (c - 1) ind) = map fst ind"
        using k by (simp add: update_keys)
      then show ?thesis by (metis length_map)
    qed
    ultimately show ?thesis using step Some by (auto simp: relax_def split: if_splits)
  qed
  moreover from Cons.prems step have "fold relax ks (ind1, q1) = (ind', q')" by simp
  from Cons.IH [OF this] have "length q' + length ind' \<le> length q1 + length ind1" .
  ultimately show ?case by simp
qed

text \<open>
  The \<^verbatim>\<open>while len(q) > 0\<close> loop of Kahn's algorithm: sort the frontier by label, pop its
  head, rank it with the counter, relax its children, count down.
\<close>

function kahn ::
  "('v, 'v list) dict \<Rightarrow> ('v, string) dict \<Rightarrow> 'v list \<Rightarrow> ('v, int) dict \<Rightarrow> ('v, int) dict
     \<Rightarrow> int \<Rightarrow> error + ('v, int) dict" where
  "kahn edges labels q indegrees ordering' visited_nodes =
     (if q = [] then Inr ordering'
      else
        (case sort_by (map_of labels) q of
           Inl err \<Rightarrow> Inl err
         | Inr [] \<Rightarrow> Inl IndexError
         | Inr (e # q') \<Rightarrow>
             (case map_of edges e of
                None \<Rightarrow> Inl KeyError
              | Some ks \<Rightarrow>
                  (case fold relax ks (indegrees, q') of
                     (indegrees', q'') \<Rightarrow>
                       kahn edges labels q'' indegrees'
                         (AList.update e visited_nodes ordering') (visited_nodes - 1)))))"
  by pat_completeness auto
termination
proof (relation "measure (\<lambda>(edges, labels, q, indegrees, ordering', visited_nodes).
                     length q + length indegrees)", goal_cases)
  case 1
  show ?case by simp
next
  case (2 edges labels q indegrees ordering' visited_nodes b e q' ks indegrees' q'')
  from 2(2,3) have "length q = Suc (length q')" by (auto dest: sort_by_length)
  moreover from 2(5) have "fold relax ks (indegrees, q') = (indegrees', q'')" by simp
  from relax_fold_measure [OF this]
  have "length q'' + length indegrees' \<le> length q' + length indegrees" .
  ultimately show ?case by simp
qed

declare kahn.simps [simp del]

text \<open>The members of a vertex collection, as \<^verbatim>\<open>list(vertices)\<close> gives them; a value
  of another type does not get this far in \<^verbatim>\<open>odd\<close> and is not iterable elsewhere.\<close>

definition members :: "('v, 'a) vcoll \<Rightarrow> error + 'v list" where
  "members vertices =
     (case vertices of
        PySet xs \<Rightarrow> Inr xs
      | PyDict d \<Rightarrow> Inr (map fst d)
      | PyOther \<Rightarrow> Inl TypeError)"

text \<open>The last loop of \<^verbatim>\<open>odd\<close>: \<^verbatim>\<open>for k in edges.keys(): edges[k].sort(key=...)\<close>.\<close>

fun sort_edges ::
  "('v \<Rightarrow> (int \<times> string) option) \<Rightarrow> ('v, 'v list) dict \<Rightarrow> error + ('v, 'v list) dict" where
  "sort_edges key [] = Inr []"
| "sort_edges key ((k, e) # es) =
     (case sort_by key e of
        Inl err \<Rightarrow> Inl err
      | Inr e' \<Rightarrow>
          (case sort_edges key es of
             Inl err \<Rightarrow> Inl err
           | Inr es' \<Rightarrow> Inr ((k, e') # es')))"

text \<open>
  \<^verbatim>\<open>odd(vertices, edges, labels)\<close>. The type test comes first; the in-degrees are counted
  over every edge list of \<^verbatim>\<open>edges.items()\<close>; the frontier starts as the vertices no edge
  enters; the counter starts at the number of vertices.
\<close>

definition odd_dag ::
  "('v, 'a) vcoll \<Rightarrow> ('v, 'v list) dict \<Rightarrow> ('v, string) dict
     \<Rightarrow> error + (('v, 'a) vcoll \<times> ('v, 'v list) dict \<times> ('v, int) dict \<times> ('v, string) dict)" where
  "odd_dag vertices edges labels =
     (case (case vertices of
              PySet xs \<Rightarrow> Inr xs
            | PyDict d \<Rightarrow> Inr (map fst d)
            | PyOther \<Rightarrow> Inl ValueError) of
        Inl err \<Rightarrow> Inl err
      | Inr vs \<Rightarrow>
          (case fold count_edge (concat (map snd edges)) ([], vs) of
             (indegrees, zero_indegrees) \<Rightarrow>
               (case kahn edges labels zero_indegrees indegrees [] (int (length vs)) of
                  Inl err \<Rightarrow> Inl err
                | Inr ordering' \<Rightarrow>
                    (case sort_edges (rank_key ordering' labels) edges of
                       Inl err \<Rightarrow> Inl err
                     | Inr edges' \<Rightarrow> Inr (vertices, edges', ordering', labels)))))"

subsection \<open>\<^verbatim>\<open>hash_trees\<close>: canonical identities and depth weights\<close>

text \<open>The list \<^verbatim>\<open>[d, 1, ID]\<close> that \<^verbatim>\<open>hash_trees\<close> stores for a vertex: slot 0 the depth
  weight, slot 1 the occurrence count, slot 2 the canonical identity.\<close>

record vnode =
  depth :: int
  occ :: int
  ident :: string

text \<open>\<^verbatim>\<open>sep.join(xs)\<close>.\<close>

fun join :: "string \<Rightarrow> string list \<Rightarrow> string" where
  "join sep [] = []"
| "join sep [x] = x"
| "join sep (x # y # ys) = x @ sep @ join sep (y # ys)"

text \<open>The loop \<^verbatim>\<open>for n in edge[v]\<close> on \<open>(d, neighbors_ids)\<close>; \<^verbatim>\<open>vertices[n]\<close> fails for a
  child that has not been given its entry yet.\<close>

fun children :: "('v, vnode) dict \<Rightarrow> 'v list \<Rightarrow> int \<times> string list \<Rightarrow> error + int \<times> string list" where
  "children vertices [] acc = Inr acc"
| "children vertices (n # ns) acc =
     (case map_of vertices n of
        None \<Rightarrow> Inl KeyError
      | Some r \<Rightarrow> children vertices ns (fst acc + (1 + depth r), snd acc @ [ident r]))"

text \<open>\<^verbatim>\<open>vertices_hash_map[key].append(v)\<close>, after creating the bucket when it is missing.\<close>

definition bucket_append :: "string \<Rightarrow> 'v \<Rightarrow> (string, 'v list) dict \<Rightarrow> (string, 'v list) dict" where
  "bucket_append key v hm =
     AList.update key ((case map_of hm key of None \<Rightarrow> [] | Some b \<Rightarrow> b) @ [v]) hm"

text \<open>The body of \<^verbatim>\<open>for v in v_ordered\<close> on \<open>(vertices, vertices_hash_map)\<close>.\<close>

definition hash_vertex ::
  "('v, 'v list) dict \<Rightarrow> ('v, string) dict \<Rightarrow> 'v
     \<Rightarrow> ('v, vnode) dict \<times> (string, 'v list) dict
     \<Rightarrow> error + ('v, vnode) dict \<times> (string, 'v list) dict" where
  "hash_vertex edge labels v s =
     (case s of (vertices, vertices_hash_map) \<Rightarrow>
        (if (case map_of edge v of None \<Rightarrow> True | Some cs \<Rightarrow> length cs = 0) then
           (case map_of labels v of
              None \<Rightarrow> Inl KeyError
            | Some l \<Rightarrow>
                Inr (AList.update v \<lparr>depth = 0, occ = 1, ident = l\<rparr> vertices,
                     bucket_append l v vertices_hash_map))
         else
           (case children vertices (case map_of edge v of None \<Rightarrow> [] | Some cs \<Rightarrow> cs) (0, []) of
              Inl err \<Rightarrow> Inl err
            | Inr (d, neighbors_ids) \<Rightarrow>
                (case map_of labels v of
                   None \<Rightarrow> Inl KeyError
                 | Some l \<Rightarrow>
                     Inr (AList.update v
                            \<lparr>depth = d, occ = 1, ident = l @ ''('' @ join '','' neighbors_ids @ '')''\<rparr>
                            vertices,
                          bucket_append (l @ ''('' @ join '','' neighbors_ids @ '')'') v
                            vertices_hash_map)))))"

fun hash_loop ::
  "('v, 'v list) dict \<Rightarrow> ('v, string) dict \<Rightarrow> 'v list
     \<Rightarrow> ('v, vnode) dict \<times> (string, 'v list) dict
     \<Rightarrow> error + ('v, vnode) dict \<times> (string, 'v list) dict" where
  "hash_loop edge labels [] s = Inr s"
| "hash_loop edge labels (v # vs) s =
     (case hash_vertex edge labels v s of
        Inl err \<Rightarrow> Inl err
      | Inr s' \<Rightarrow> hash_loop edge labels vs s')"

text \<open>\<^verbatim>\<open>hash_trees(tree)\<close> for \<open>tree = (vertex, edge, ordering, labels)\<close>.\<close>

definition hash_trees ::
  "('v, 'a) vcoll \<times> ('v, 'v list) dict \<times> ('v, int) dict \<times> ('v, string) dict
     \<Rightarrow> error + (('v, vnode) dict \<times> (string, 'v list) dict \<times> 'v list)" where
  "hash_trees tree =
     (case tree of (vertex, edge, ordering', labels) \<Rightarrow>
        (case members vertex of
           Inl err \<Rightarrow> Inl err
         | Inr vs \<Rightarrow>
             (case sort_by (rank_key ordering' labels) vs of
                Inl err \<Rightarrow> Inl err
              | Inr v_ordered \<Rightarrow>
                  (case hash_loop edge labels v_ordered ([], []) of
                     Inl err \<Rightarrow> Inl err
                   | Inr (vertices, vertices_hash_map) \<Rightarrow>
                       Inr (vertices, vertices_hash_map, v_ordered)))))"

subsection \<open>\<^verbatim>\<open>big_dag_append\<close>: folding a DAG into the Big DAG\<close>

text \<open>
  A frequency is an \<^verbatim>\<open>int\<close> when features are merged and a \<^verbatim>\<open>list\<close> of ints, one slot
  per folded DAG, when they are not. A node of the Big DAG is the list
  \<^verbatim>\<open>[vertices[q][1], freq, key]\<close> that \<^verbatim>\<open>big_dag_append\<close> stores in \<^verbatim>\<open>D_vertices\<close>; its
  fields are named by their index.
\<close>

datatype freq = Scalar int | Vector "int list"

record bnode =
  slot0 :: int
  slot1 :: freq
  slot2 :: string

text \<open>The tuple \<^verbatim>\<open>(D_vertices, D_hash_map, D_edges, D_labels)\<close>; node indices are
  \<^verbatim>\<open>0, 1, 2, ...\<close>.\<close>

record big_dag =
  D_vertices :: "(nat, bnode) dict"
  D_hash_map :: "(string, nat list) dict"
  D_edges :: "(nat, nat list) dict"
  D_labels :: "(nat, string) dict"

text \<open>The tuple \<^verbatim>\<open>(vertices, vertices_hash_map, v_ordered, edges, labels)\<close> that is folded
  in. Its vertex entries carry an \<^verbatim>\<open>int\<close> count in slot 1, as those of \<^verbatim>\<open>hash_trees\<close> do.\<close>

type_synonym 'q dag_tuple =
  "('q, vnode) dict \<times> (string, 'q list) dict \<times> 'q list \<times> ('q, 'q list) dict \<times> ('q, string) dict"

text \<open>\<^verbatim>\<open>for v in D_vertices.keys(): D_vertices[v][1].append(0)\<close>; an \<^verbatim>\<open>int\<close> has no
  \<^verbatim>\<open>append\<close>.\<close>

fun append_zero :: "(nat, bnode) dict \<Rightarrow> error + (nat, bnode) dict" where
  "append_zero [] = Inr []"
| "append_zero ((v, b) # rest) =
     (case slot1 b of
        Scalar n \<Rightarrow> Inl AttributeError
      | Vector fs \<Rightarrow>
          (case append_zero rest of
             Inl err \<Rightarrow> Inl err
           | Inr rest' \<Rightarrow> Inr ((v, b\<lparr>slot1 := Vector (fs @ [0])\<rparr>) # rest')))"

text \<open>\<open>nf\<close>: the length of the first node's frequency list once the zero is appended, or
  \<open>1\<close> when there is no node. (After \<open>append_zero\<close> every frequency is a list.)\<close>

definition nf_of :: "(nat, bnode) dict \<Rightarrow> nat" where
  "nf_of vs =
     (case vs of
        [] \<Rightarrow> 1
      | (v, b) # rest \<Rightarrow> (case slot1 b of Scalar n \<Rightarrow> 1 | Vector fs \<Rightarrow> length fs))"

text \<open>
  \<^verbatim>\<open>D_vertices[node][1] += c\<close> when features are merged and
  \<^verbatim>\<open>D_vertices[node][1][-1] += c\<close> when they are not, for an \<^verbatim>\<open>int\<close> \<open>c\<close>.
\<close>

definition add_freq :: "bool \<Rightarrow> freq \<Rightarrow> int \<Rightarrow> error + freq" where
  "add_freq merge_features f c =
     (if merge_features then
        (case f of Scalar n \<Rightarrow> Inr (Scalar (n + c)) | Vector fs \<Rightarrow> Inl TypeError)
      else
        (case f of
           Scalar n \<Rightarrow> Inl TypeError
         | Vector fs \<Rightarrow>
             if fs = [] then Inl IndexError else Inr (Vector (butlast fs @ [last fs + c]))))"

text \<open>The loop \<^verbatim>\<open>for c in edges[q]\<close> on \<open>d_edges\<close>; the set \<open>v_nodes\<close> always holds the
  members of \<open>d_edges\<close>.\<close>

fun child_nodes ::
  "('q, vnode) dict \<Rightarrow> (string, nat list) dict \<Rightarrow> 'q list \<Rightarrow> nat list \<Rightarrow> error + nat list" where
  "child_nodes vertices hm [] d_edges = Inr d_edges"
| "child_nodes vertices hm (c # cs) d_edges =
     (case map_of vertices c of
        None \<Rightarrow> Inl KeyError
      | Some r \<Rightarrow>
          (case map_of hm (ident r) of
             None \<Rightarrow> child_nodes vertices hm cs d_edges
           | Some [] \<Rightarrow> Inl IndexError
           | Some (node # other) \<Rightarrow>
               child_nodes vertices hm cs
                 (if node \<in> set d_edges then d_edges else d_edges @ [node])))"

text \<open>The body of \<^verbatim>\<open>for q in v_ordered\<close> on the Big DAG and \<open>nodes_idx\<close>.\<close>

definition big_dag_step ::
  "bool \<Rightarrow> nat \<Rightarrow> ('q, vnode) dict \<Rightarrow> ('q, 'q list) dict \<Rightarrow> ('q, string) dict \<Rightarrow> 'q
     \<Rightarrow> big_dag \<times> nat \<Rightarrow> error + big_dag \<times> nat" where
  "big_dag_step merge_features nf vertices edges labels q s =
     (case s of (D, nodes_idx) \<Rightarrow>
        (case map_of vertices q of
           None \<Rightarrow> Inl KeyError
         | Some r \<Rightarrow>
             (case map_of (D_hash_map D) (ident r) of
                Some [] \<Rightarrow> Inl IndexError
              | Some (node # other) \<Rightarrow>
                  (case map_of (D_vertices D) node of
                     None \<Rightarrow> Inl KeyError
                   | Some b \<Rightarrow>
                       (case add_freq merge_features (slot1 b) (occ r) of
                          Inl err \<Rightarrow> Inl err
                        | Inr f \<Rightarrow>
                            Inr (D\<lparr>D_vertices :=
                                     AList.update node (b\<lparr>slot1 := f\<rparr>) (D_vertices D)\<rparr>,
                                 nodes_idx)))
              | None \<Rightarrow>
                  (case map_of labels q of
                     None \<Rightarrow> Inl KeyError
                   | Some l \<Rightarrow>
                       (case map_of edges q of
                          None \<Rightarrow> Inl KeyError
                        | Some cs \<Rightarrow>
                            (case child_nodes vertices (D_hash_map D) cs [] of
                               Inl err \<Rightarrow> Inl err
                             | Inr d_edges \<Rightarrow>
                                 Inr (\<lparr>D_vertices =
                                        AList.update nodes_idx
                                          \<lparr>slot0 = occ r,
                                           slot1 = (if merge_features then Scalar (occ r)
                                                    else Vector (replicate (nf - 1) 0 @ [occ r])),
                                           slot2 = ident r\<rparr>
                                          (D_vertices D),
                                      D_hash_map = AList.update (ident r) [nodes_idx] (D_hash_map D),
                                      D_edges = AList.update nodes_idx d_edges (D_edges D),
                                      D_labels = AList.update nodes_idx l (D_labels D)\<rparr>,
                                      nodes_idx + 1)))))))"

fun big_dag_loop ::
  "bool \<Rightarrow> nat \<Rightarrow> ('q, vnode) dict \<Rightarrow> ('q, 'q list) dict \<Rightarrow> ('q, string) dict \<Rightarrow> 'q list
     \<Rightarrow> big_dag \<times> nat \<Rightarrow> error + big_dag \<times> nat" where
  "big_dag_loop merge_features nf vertices edges labels [] s = Inr s"
| "big_dag_loop merge_features nf vertices edges labels (q # qs) s =
     (case big_dag_step merge_features nf vertices edges labels q s of
        Inl err \<Rightarrow> Inl err
      | Inr s' \<Rightarrow> big_dag_loop merge_features nf vertices edges labels qs s')"

definition empty_big_dag :: big_dag where
  "empty_big_dag = \<lparr>D_vertices = [], D_hash_map = [], D_edges = [], D_labels = []\<rparr>"

text \<open>
  What precedes the loop: the Big DAG to fold into, \<open>nodes_idx\<close> and \<open>nf\<close>. With a Big DAG
  given and features merged, \<open>nf\<close> is never assigned and never read; the model carries 1.
\<close>

definition big_dag_init :: "big_dag option \<Rightarrow> bool \<Rightarrow> error + big_dag \<times> nat \<times> nat" where
  "big_dag_init big_dag merge_features =
     (case big_dag of
        None \<Rightarrow> Inr (empty_big_dag, 0, 1)
      | Some D \<Rightarrow>
          if merge_features then Inr (D, length (D_vertices D), 1)
          else
            (case append_zero (D_vertices D) of
               Inl err \<Rightarrow> Inl err
             | Inr vs \<Rightarrow> Inr (D\<lparr>D_vertices := vs\<rparr>, length (D_vertices D), nf_of vs)))"

text \<open>\<^verbatim>\<open>big_dag_append(dag, big_dag, merge_features)\<close>, as a function of the values of its
  arguments.\<close>

definition big_dag_append :: "'q dag_tuple \<Rightarrow> big_dag option \<Rightarrow> bool \<Rightarrow> error + big_dag" where
  "big_dag_append dag' big_dag merge_features =
     (case big_dag_init big_dag merge_features of
        Inl err \<Rightarrow> Inl err
      | Inr (D, nodes_idx, nf) \<Rightarrow>
          (case dag' of (vertices, vertices_hash_map, v_ordered, edges, labels) \<Rightarrow>
             (case big_dag_loop merge_features nf vertices edges labels v_ordered (D, nodes_idx) of
                Inl err \<Rightarrow> Inl err
              | Inr (D', nodes_idx') \<Rightarrow> Inr D')))"

subsection \<open>\<^verbatim>\<open>big_dag_append\<close> on objects\<close>










subsection \<open>\<^verbatim>\<open>make_dag_odd\<close>, \<^verbatim>\<open>make_big_dag\<close>\<close>

text \<open>\<^verbatim>\<open>make_dag_odd(v, g, h)\<close>: the source calls \<^verbatim>\<open>dag(v, g, h=None)\<close>, whatever \<open>h\<close> is.\<close>

definition make_dag_odd ::
  "'v \<Rightarrow> 'v graph \<Rightarrow> int option
     \<Rightarrow> error + (('v, unit) vcoll \<times> ('v, 'v list) dict \<times> ('v, int) dict \<times> ('v, string) dict)" where
  "make_dag_odd v g h =
     (case dag v g None of
        Inl err \<Rightarrow> Inl err
      | Inr (vertices, edges) \<Rightarrow> odd_dag (PySet vertices) edges (get_labels g))"

text \<open>The loop \<^verbatim>\<open>for v in g.get_vertices()\<close> of \<^verbatim>\<open>make_big_dag\<close>, features merged.\<close>

fun big_dag_of_roots ::
  "'v graph \<Rightarrow> int option \<Rightarrow> 'v list \<Rightarrow> big_dag option \<Rightarrow> error + big_dag option" where
  "big_dag_of_roots g h [] big_dag = Inr big_dag"
| "big_dag_of_roots g h (v # vs) big_dag =
     (case make_dag_odd v g h of
        Inl err \<Rightarrow> Inl err
      | Inr dag_odd \<Rightarrow>
          (case hash_trees dag_odd of
             Inl err \<Rightarrow> Inl err
           | Inr (vertices, vertices_hash_map, v_ordered) \<Rightarrow>
               (case big_dag_append
                       (vertices, vertices_hash_map, v_ordered, fst (snd dag_odd),
                        snd (snd (snd dag_odd)))
                       big_dag True of
                  Inl err \<Rightarrow> Inl err
                | Inr D \<Rightarrow> big_dag_of_roots g h vs (Some D))))"

text \<open>The tuple \<^verbatim>\<open>make_big_dag\<close> returns: the Big DAG of one graph with its nodes in rank
  order, \<^verbatim>\<open>(D_vertices, D_hash_map, v_ordered, D_edges, D_labels)\<close>.\<close>

type_synonym graph_dag =
  "(nat, bnode) dict \<times> (string, nat list) dict \<times> nat list \<times> (nat, nat list) dict \<times> (nat, string) dict"

text \<open>\<^verbatim>\<open>make_big_dag(g, h)\<close>; subscripting \<^verbatim>\<open>None\<close>, the Big DAG of a graph without
  vertices, is a \<^verbatim>\<open>TypeError\<close>.\<close>

definition make_big_dag :: "'v graph \<Rightarrow> int option \<Rightarrow> error + graph_dag" where
  "make_big_dag g h =
     (case big_dag_of_roots g h (get_vertices g) None of
        Inl err \<Rightarrow> Inl err
      | Inr None \<Rightarrow> Inl TypeError
      | Inr (Some D) \<Rightarrow>
          (case odd_dag (PyDict (D_vertices D)) (D_edges D) (D_labels D) of
             Inl err \<Rightarrow> Inl err
           | Inr (vs, D_edges', D_ordering, ls) \<Rightarrow>
               (case sort_by (rank_key D_ordering (D_labels D)) (map fst (D_vertices D)) of
                  Inl err \<Rightarrow> Inl err
                | Inr v_ordered \<Rightarrow>
                    Inr (D_vertices D, D_hash_map D, v_ordered, D_edges', D_labels D))))"

subsection \<open>\<^verbatim>\<open>odd_sth_matrix\<close>: the kernel matrix\<close>

text \<open>
  The Big DAG of a graph is folded in as a DAG of its own: its node lists
  \<^verbatim>\<open>[count, freq, key]\<close> are read as vertex entries. With features merged every \<open>freq\<close> is an
  \<^verbatim>\<open>int\<close>, which is what a vertex entry carries in slot 1.
\<close>

fun as_vertices :: "(nat, bnode) dict \<Rightarrow> error + (nat, vnode) dict" where
  "as_vertices [] = Inr []"
| "as_vertices ((v, b) # rest) =
     (case slot1 b of
        Vector fs \<Rightarrow> Inl TypeError
      | Scalar c \<Rightarrow>
          (case as_vertices rest of
             Inl err \<Rightarrow> Inl err
           | Inr rest' \<Rightarrow> Inr ((v, \<lparr>depth = slot0 b, occ = c, ident = slot2 b\<rparr>) # rest')))"

text \<open>The loop \<^verbatim>\<open>for g in g_iter\<close>, features kept as vectors.\<close>

fun big2Dag_of_graphs ::
  "int option \<Rightarrow> 'v graph list \<Rightarrow> big_dag option \<Rightarrow> error + big_dag option" where
  "big2Dag_of_graphs h [] big2Dag = Inr big2Dag"
| "big2Dag_of_graphs h (g # gs) big2Dag =
     (case make_big_dag g h of
        Inl err \<Rightarrow> Inl err
      | Inr (vs, hm, v_ordered, es, ls) \<Rightarrow>
          (case as_vertices vs of
             Inl err \<Rightarrow> Inl err
           | Inr vertices \<Rightarrow>
               (case big_dag_append (vertices, hm, v_ordered, es, ls) big2Dag False of
                  Inl err \<Rightarrow> Inl err
                | Inr D \<Rightarrow> big2Dag_of_graphs h gs (Some D))))"

text \<open>The loop \<^verbatim>\<open>for v in C.keys(): k += freq[v][i] * freq[v][j] * C[v]\<close>, where \<open>C[v]\<close> is
  slot 0 of node \<open>v\<close>.\<close>

fun kernel_sum :: "nat \<Rightarrow> nat \<Rightarrow> (nat, bnode) dict \<Rightarrow> int \<Rightarrow> error + int" where
  "kernel_sum i j [] k = Inr k"
| "kernel_sum i j ((v, b) # rest) k =
     (case slot1 b of
        Scalar n \<Rightarrow> Inl TypeError
      | Vector fs \<Rightarrow>
          if i < length fs \<and> j < length fs
          then kernel_sum i j rest (k + fs ! i * fs ! j * slot0 b)
          else Inl IndexError)"

text \<open>The loop \<^verbatim>\<open>for (i, j) in pairs: ...; K[i - offset, j] = k\<close>. The matrix is a list of
  rows; its entries are the integers the loop computes (numpy stores them as floats). The
  pairs of \<^verbatim>\<open>odd_sth_matrix\<close> never index below \<open>offset\<close> or outside the matrix.\<close>

fun fill_matrix ::
  "(nat, bnode) dict \<Rightarrow> nat \<Rightarrow> (nat \<times> nat) list \<Rightarrow> int list list \<Rightarrow> error + int list list" where
  "fill_matrix vs offset [] K = Inr K"
| "fill_matrix vs offset ((i, j) # pairs) K =
     (case kernel_sum i j vs 0 of
        Inl err \<Rightarrow> Inl err
      | Inr k \<Rightarrow>
          if offset \<le> i \<and> i - offset < length K \<and> j < length (K ! (i - offset))
          then fill_matrix vs offset pairs (K[i - offset := (K ! (i - offset))[j := k]])
          else Inl IndexError)"

text \<open>\<^verbatim>\<open>np.triu(K, d)\<close>: the entries on and above the \<open>d\<close>-th diagonal, zero below.\<close>

definition triu :: "nat \<Rightarrow> int list list \<Rightarrow> int list list" where
  "triu d K =
     map (\<lambda>i. map (\<lambda>j. if i + d \<le> j then K ! i ! j else 0) [0..<length (K ! i)]) [0..<length K]"

definition matrix_add :: "int list list \<Rightarrow> int list list \<Rightarrow> int list list" where
  "matrix_add A B = map2 (map2 (+)) A B"

text \<open>\<^verbatim>\<open>odd_sth_matrix(Graphs_x, Graphs_y, h)\<close>; the dictionaries of graphs with keys
  \<open>0, 1, ...\<close> are the lists of their values.\<close>

definition odd_sth_matrix ::
  "'v graph list \<Rightarrow> 'v graph list option \<Rightarrow> int option \<Rightarrow> error + int list list" where
  "odd_sth_matrix Graphs_x Graphs_y h =
     (let h_x = length Graphs_x;
          h_y = (case Graphs_y of None \<Rightarrow> h_x | Some ys \<Rightarrow> length ys);
          g_iter = (case Graphs_y of None \<Rightarrow> Graphs_x | Some ys \<Rightarrow> Graphs_x @ ys);
          ng = (case Graphs_y of None \<Rightarrow> h_x | Some ys \<Rightarrow> h_x + h_y);
          pairs = (case Graphs_y of
                     None \<Rightarrow> concat (map (\<lambda>i. map (\<lambda>j. (i, j)) [i..<h_x]) [0..<h_x])
                   | Some ys \<Rightarrow> concat (map (\<lambda>i. map (\<lambda>j. (i, j)) [0..<h_x]) [h_x..<ng]));
          offset = (case Graphs_y of None \<Rightarrow> 0 | Some ys \<Rightarrow> h_x)
      in case big2Dag_of_graphs h g_iter None of
           Inl err \<Rightarrow> Inl err
         | Inr None \<Rightarrow> Inl TypeError
         | Inr (Some big2Dag) \<Rightarrow>
             (case fill_matrix (D_vertices big2Dag) offset pairs
                     (replicate h_y (replicate h_x 0)) of
                Inl err \<Rightarrow> Inl err
              | Inr K \<Rightarrow>
                  (case Graphs_y of
                     None \<Rightarrow> Inr (matrix_add (triu 0 K) (transpose (triu 1 K)))
                   | Some ys \<Rightarrow> Inr K)))"

text \<open>\<^verbatim>\<open>odd_sth\<close>, on the two graphs \<^verbatim>\<open>graph(X, Lx)\<close> and \<^verbatim>\<open>graph(Y, Ly)\<close>: the source
  passes \<^verbatim>\<open>h=None\<close> on.\<close>

definition odd_sth :: "'v graph \<Rightarrow> 'v graph \<Rightarrow> int option \<Rightarrow> error + int" where
  "odd_sth Gx Gy h =
     (case odd_sth_matrix [Gx] (Some [Gy]) None of
        Inl err \<Rightarrow> Inl err
      | Inr K \<Rightarrow> Inr (K ! 0 ! 0))"

subsection \<open>Two small graphs\<close>

text \<open>Two vertices \<open>0\<close> and \<open>1\<close>, labelled \<open>a\<close> and \<open>b\<close>, joined by one edge.\<close>

definition two_vertex_graph :: "nat graph" where
  "two_vertex_graph =
     \<lparr>get_vertices = [0, 1],
      adjacency = [(0, [1]), (1, [0])],
      get_labels = [(0, ''a''), (1, ''b'')]\<rparr>"

text \<open>The chain \<open>0 - 1 - ... - (n - 1)\<close>, every vertex labelled \<open>x\<close>.\<close>

definition chain_graph :: "nat \<Rightarrow> nat graph" where
  "chain_graph n =
     \<lparr>get_vertices = [0..<n],
      adjacency =
        map (\<lambda>i. (i, (if i = 0 then [] else [i - 1]) @ (if i + 1 < n then [i + 1] else [])))
          [0..<n],
      get_labels = map (\<lambda>i. (i, ''x'')) [0..<n]\<rparr>"

text \<open>The square \<open>0 - 1 - 3 - 2 - 0\<close>, labelled \<open>a\<close>, \<open>b\<close>, \<open>c\<close>, \<open>b\<close> around the cycle.\<close>

definition square_graph :: "nat graph" where
  "square_graph =
     \<lparr>get_vertices = [0, 1, 2, 3],
      adjacency = [(0, [1, 2]), (1, [0, 3]), (2, [0, 3]), (3, [1, 2])],
      get_labels = [(0, ''a''), (1, ''b''), (2, ''b''), (3, ''c'')]\<rparr>"

text \<open>The DAG of the square rooted at \<open>0\<close>, as \<^verbatim>\<open>hash_trees\<close> and \<^verbatim>\<open>odd\<close> give it.\<close>

definition square_dag :: "nat dag_tuple" where
  "square_dag =
     ([(3, \<lparr>depth = 0, occ = 1, ident = ''c''\<rparr>),
       (2, \<lparr>depth = 1, occ = 1, ident = ''b(c)''\<rparr>),
       (1, \<lparr>depth = 1, occ = 1, ident = ''b(c)''\<rparr>),
       (0, \<lparr>depth = 4, occ = 1, ident = ''a(b(c),b(c))''\<rparr>)],
      [(''c'', [3]), (''b(c)'', [2, 1]), (''a(b(c),b(c))'', [0])],
      [3, 2, 1, 0],
      [(0, [2, 1]), (1, [3]), (2, [3]), (3, [])],
      [(0, ''a''), (1, ''b''), (2, ''b''), (3, ''c'')])"




section \<open>The claims\<close>

subsection \<open>C1: the weight in the kernel sum\<close>

text \<open>
  C1. The reducer computes every entry as the sum over the global nodes \<open>v\<close> of
  \<open>freq[v][i] * freq[v][j] * C[v]\<close>, where \<open>C[v]\<close> is the depth weight the canonicalizer
  computed for \<open>v\<close>. The sum is what \<open>kernel_sum\<close> computes, but \<open>C[v]\<close> is slot 0 of the
  global node, and \<^verbatim>\<open>big_dag_append\<close> stores the vertex's occurrence count there
  (\<^verbatim>\<open>[vertices[q][1], freq, key]\<close>), not its depth weight \<^verbatim>\<open>vertices[q][0]\<close>. On the graph with
  two vertices the canonicalizer gives the leaves \<open>b\<close> and \<open>a\<close> depth weight 0 and the roots
  \<open>a(b)\<close> and \<open>b(a)\<close> depth weight 1, so the claim's sum is \<open>0 + 1 + 0 + 1 = 2\<close>; every
  global node carries 1 in slot 0 and the entry computed is 4.
\<close>

theorem kernel_weight_is_occurrence_count:
  "(case make_dag_odd 0 two_vertex_graph None of Inl err \<Rightarrow> Inl err | Inr t \<Rightarrow> hash_trees t)
     = Inr ([(1, \<lparr>depth = 0, occ = 1, ident = ''b''\<rparr>),
             (0, \<lparr>depth = 1, occ = 1, ident = ''a(b)''\<rparr>)],
            [(''b'', [1]), (''a(b)'', [0])], [1, 0])
   \<and> (case make_dag_odd 1 two_vertex_graph None of Inl err \<Rightarrow> Inl err | Inr t \<Rightarrow> hash_trees t)
     = Inr ([(0, \<lparr>depth = 0, occ = 1, ident = ''a''\<rparr>),
             (1, \<lparr>depth = 1, occ = 1, ident = ''b(a)''\<rparr>)],
            [(''a'', [0]), (''b(a)'', [1])], [0, 1])
   \<and> big2Dag_of_graphs None [two_vertex_graph] None
     = Inr (Some
         \<lparr>D_vertices =
            [(0, \<lparr>slot0 = 1, slot1 = Vector [1], slot2 = ''b''\<rparr>),
             (1, \<lparr>slot0 = 1, slot1 = Vector [1], slot2 = ''a''\<rparr>),
             (2, \<lparr>slot0 = 1, slot1 = Vector [1], slot2 = ''b(a)''\<rparr>),
             (3, \<lparr>slot0 = 1, slot1 = Vector [1], slot2 = ''a(b)''\<rparr>)],
          D_hash_map = [(''b'', [0]), (''a'', [1]), (''b(a)'', [2]), (''a(b)'', [3])],
          D_edges = [(0, []), (1, []), (2, [1]), (3, [0])],
          D_labels = [(0, ''b''), (1, ''a''), (2, ''b''), (3, ''a'')]\<rparr>)
   \<and> odd_sth_matrix [two_vertex_graph] None None = Inr [[4]]"
  by code_simp

subsection \<open>C2: the depth bound and the chain\<close>

text \<open>
  C2. With a depth bound \<open>h\<close> the extraction from a root visits only the vertices within
  distance \<open>h\<close>; on the chain of 10 vertices rooted at one end, with bound 3, the extracted
  DAG has exactly 4 vertices. \<^verbatim>\<open>dag\<close> itself does that, but \<^verbatim>\<open>make_dag_odd\<close>, through which
  the kernel computation extracts every DAG, calls \<^verbatim>\<open>dag(v, g, h=None)\<close>: with bound 3 it
  extracts all 10 vertices.
\<close>

theorem chain_bound_dropped:
  "dag 0 (chain_graph 10) (Some 3) = Inr ([0, 1, 2, 3], [(0, [1]), (1, [2]), (2, [3])])
   \<and> make_dag_odd 0 (chain_graph 10) (Some 3)
     = Inr (PySet [0, 1, 2, 3, 4, 5, 6, 7, 8, 9],
            [(0, [1]), (1, [2]), (2, [3]), (3, [4]), (4, [5]), (5, [6]), (6, [7]),
             (7, [8]), (8, [9]), (9, [])],
            [(0, 10), (1, 9), (2, 8), (3, 7), (4, 6), (5, 5), (6, 4), (7, 3), (8, 2), (9, 1)],
            [(0, ''x''), (1, ''x''), (2, ''x''), (3, ''x''), (4, ''x''),
             (5, ''x''), (6, ''x''), (7, ''x''), (8, ''x''), (9, ''x'')])"
  by code_simp

subsection \<open>Facts about \<open>sort_by\<close>\<close>

lemma those_map_Some:
  "those (map key xs) = Some ks \<Longrightarrow> ks = map (\<lambda>x. the (key x)) xs"
  by (induction xs arbitrary: ks) (auto split: option.splits)

lemma insort_key_decorated:
  "\<forall>p \<in> set ps. fst p = f (snd p) \<Longrightarrow>
   map snd (insort_key fst (f x, x) ps) = insort_key f x (map snd ps)"
  by (induction ps) auto

lemma sort_key_decorated: "map snd (sort_key fst (zip (map f xs) xs)) = sort_key f xs"
proof (induction xs)
  case Nil
  then show ?case by simp
next
  case (Cons x xs)
  have "\<forall>p \<in> set (sort_key fst (zip (map f xs) xs)). fst p = f (snd p)"
    by (auto simp: set_zip)
  with Cons show ?case by (simp add: sort_key_simps insort_key_decorated)
qed

lemma sort_by_sort_key:
  "sort_by key xs = Inr ys \<Longrightarrow> ys = sort_key (\<lambda>x. the (key x)) xs"
  by (auto simp: sort_by_def sort_key_decorated split: option.splits dest!: those_map_Some)

lemma sort_by_keys_defined: "sort_by key xs = Inr ys \<Longrightarrow> x \<in> set xs \<Longrightarrow> \<exists>k. key x = Some k"
proof -
  have "those (map key xs) = Some ks \<Longrightarrow> x \<in> set xs \<Longrightarrow> \<exists>k. key x = Some k" for ks
    by (induction xs arbitrary: ks) (auto split: option.splits)
  then show "sort_by key xs = Inr ys \<Longrightarrow> x \<in> set xs \<Longrightarrow> \<exists>k. key x = Some k"
    by (auto simp: sort_by_def split: option.splits)
qed

subsection \<open>C3: identities and depth weights\<close>

text \<open>What \<^verbatim>\<open>hash_trees\<close> is to store for a vertex \<open>v\<close>, read off the entries of its
  children.\<close>

definition canonical ::
  "('v, 'v list) dict \<Rightarrow> ('v, string) dict \<Rightarrow> ('v, vnode) dict \<Rightarrow> 'v \<Rightarrow> bool" where
  "canonical edge labels vertices v =
     (\<exists>l. map_of labels v = Some l \<and>
        (if (case map_of edge v of None \<Rightarrow> True | Some cs \<Rightarrow> cs = [])
         then map_of vertices v = Some \<lparr>depth = 0, occ = 1, ident = l\<rparr>
         else (\<exists>cs rs. map_of edge v = Some cs \<and> map (map_of vertices) cs = map Some rs
                 \<and> map_of vertices v
                     = Some \<lparr>depth = int (length cs) + sum_list (map depth rs), occ = 1,
                             ident = l @ ''('' @ join '','' (map ident rs) @ '')''\<rparr>)))"

lemma children_result:
  "children vertices ns acc = Inr (d, ids) \<Longrightarrow>
   \<exists>rs. map (map_of vertices) ns = map Some rs
        \<and> d = fst acc + int (length ns) + sum_list (map depth rs)
        \<and> ids = snd acc @ map ident rs"
proof (induction ns arbitrary: acc)
  case Nil
  then show ?case by auto
next
  case (Cons n ns)
  from Cons.prems obtain r where r: "map_of vertices n = Some r"
    and rest: "children vertices ns (fst acc + (1 + depth r), snd acc @ [ident r]) = Inr (d, ids)"
    by (auto split: option.splits)
  from Cons.IH [OF rest] obtain rs where
    "map (map_of vertices) ns = map Some rs"
    "d = fst acc + (1 + depth r) + int (length ns) + sum_list (map depth rs)"
    "ids = (snd acc @ [ident r]) @ map ident rs" by auto
  with r show ?case by (intro exI [of _ "r # rs"]) simp
qed

lemma canonical_mono:
  assumes "canonical edge labels vertices v"
    and "\<And>x y. map_of vertices x = Some y \<Longrightarrow> map_of vertices' x = Some y"
  shows "canonical edge labels vertices' v"
proof -
  have lift: "map (map_of vertices) cs = map Some rs \<Longrightarrow> map (map_of vertices') cs = map Some rs"
    for cs rs
  proof (induction cs arbitrary: rs)
    case Nil
    then show ?case by simp
  next
    case (Cons c cs)
    then show ?case using assms(2) by (cases rs) auto
  qed
  from assms(1) show ?thesis
    unfolding canonical_def
    by (auto simp: assms(2) split: if_splits dest!: lift) 
qed

lemma hash_vertex_canonical:
  assumes "hash_vertex edge labels v (vertices, hm) = Inr (vertices', hm')"
    and "map_of vertices v = None"
  shows "(\<forall>x y. map_of vertices x = Some y \<longrightarrow> map_of vertices' x = Some y)
         \<and> (\<forall>x. x \<noteq> v \<longrightarrow> map_of vertices' x = map_of vertices x)
         \<and> canonical edge labels vertices' v"
proof (cases "case map_of edge v of None \<Rightarrow> True | Some cs \<Rightarrow> cs = []")
  case True
  with assms show ?thesis
    by (auto simp: hash_vertex_def canonical_def update_conv' split: option.splits)
next
  case False
  then obtain cs where cs: "map_of edge v = Some cs" "cs \<noteq> []" by (auto split: option.splits)
  with assms(1) obtain d ids l where
    ch: "children vertices cs (0, []) = Inr (d, ids)" and l: "map_of labels v = Some l"
    and v': "vertices' = AList.update v
               \<lparr>depth = d, occ = 1, ident = l @ ''('' @ join '','' ids @ '')''\<rparr> vertices"
    by (auto simp: hash_vertex_def split: option.splits sum.splits)
  from children_result [OF ch] obtain rs where
    rs: "map (map_of vertices) cs = map Some rs"
    and d: "d = int (length cs) + sum_list (map depth rs)" and ids: "ids = map ident rs"
    by auto
  have mono: "map_of vertices x = Some y \<Longrightarrow> map_of vertices' x = Some y" for x y
    using assms(2) v' by (auto simp: update_conv')
  have "map (map_of vertices') cs = map Some rs"
    using rs
  proof (induction cs arbitrary: rs)
    case Nil
    then show ?case by simp
  next
    case (Cons c cs)
    then show ?case using mono by (cases rs) auto
  qed
  with cs l v' d ids have "canonical edge labels vertices' v"
    unfolding canonical_def by (auto simp: update_conv')
  with mono v' show ?thesis by (auto simp: update_conv')
qed

lemma hash_loop_canonical:
  "hash_loop edge labels vs (vertices, hm) = Inr (vertices', hm') \<Longrightarrow> distinct vs \<Longrightarrow>
   (\<forall>v \<in> set vs. map_of vertices v = None) \<Longrightarrow>
   (\<forall>x y. map_of vertices x = Some y \<longrightarrow> map_of vertices' x = Some y)
   \<and> (\<forall>v \<in> set vs. canonical edge labels vertices' v)"
proof (induction vs arbitrary: vertices hm)
  case Nil
  then show ?case by simp
next
  case (Cons v vs)
  from Cons.prems(1) obtain v1 h1 where
    step: "hash_vertex edge labels v (vertices, hm) = Inr (v1, h1)"
    and rest: "hash_loop edge labels vs (v1, h1) = Inr (vertices', hm')"
    by (auto split: sum.splits)
  from Cons.prems(3) have "map_of vertices v = None" by simp
  from hash_vertex_canonical [OF step this]
  have m1: "\<And>x y. map_of vertices x = Some y \<Longrightarrow> map_of v1 x = Some y"
    and same: "\<And>x. x \<noteq> v \<Longrightarrow> map_of v1 x = map_of vertices x"
    and c1: "canonical edge labels v1 v" by blast+
  have "\<forall>x \<in> set vs. map_of v1 x = None"
  proof
    fix x
    assume x: "x \<in> set vs"
    with Cons.prems(2) have "x \<noteq> v" by auto
    from same [OF this] x Cons.prems(3) show "map_of v1 x = None" by simp
  qed
  with Cons.IH [OF rest] Cons.prems(2)
  have m2: "\<And>x y. map_of v1 x = Some y \<Longrightarrow> map_of vertices' x = Some y"
    and c2: "\<forall>x \<in> set vs. canonical edge labels vertices' x" by auto
  from canonical_mono [OF c1 m2] c2 m1 m2 show ?case by auto
qed

text \<open>
  C3. For every vertex \<open>v\<close> of the DAG handed to \<^verbatim>\<open>hash_trees\<close>: without outgoing edges
  its identity is its label and its depth weight 0; with children \<open>c1..ck\<close>, in the order
  of its edge list, its depth weight is \<open>k\<close> plus the sum of the children's depth weights,
  which is the sum of \<open>1 + D[ci]\<close>, and its identity is the label, \<open>(\<close>, the children's
  identities joined by commas, and \<open>)\<close>. The vertex collection lists each vertex once.
\<close>

theorem hash_trees_identity_and_weight:
  assumes "hash_trees (vertex, edge, ordering', labels) = Inr (vertices, vertices_hash_map, v_ordered)"
    and "members vertex = Inr vs" and "distinct vs" and "v \<in> set vs"
  shows "\<exists>l. map_of labels v = Some l \<and>
        (if (case map_of edge v of None \<Rightarrow> True | Some cs \<Rightarrow> cs = [])
         then map_of vertices v = Some \<lparr>depth = 0, occ = 1, ident = l\<rparr>
         else (\<exists>cs rs. map_of edge v = Some cs \<and> map (map_of vertices) cs = map Some rs
                 \<and> map_of vertices v
                     = Some \<lparr>depth = int (length cs) + sum_list (map depth rs), occ = 1,
                             ident = l @ ''('' @ join '','' (map ident rs) @ '')''\<rparr>
                 \<and> int (length cs) + sum_list (map depth rs)
                     = sum_list (map (\<lambda>r. 1 + depth r) rs)))"
proof -
  from assms(1,2) have vo: "sort_by (rank_key ordering' labels) vs = Inr v_ordered"
    and loop: "hash_loop edge labels v_ordered ([], []) = Inr (vertices, vertices_hash_map)"
    by (auto simp: hash_trees_def split: sum.splits)
  from sort_by_sort_key [OF vo] assms(3,4) have "distinct v_ordered" "v \<in> set v_ordered"
    by simp_all
  with hash_loop_canonical [OF loop] have c: "canonical edge labels vertices v" by simp
  have len: "map (map_of vertices) cs = map Some rs \<Longrightarrow>
      int (length cs) + sum_list (map depth rs) = sum_list (map (\<lambda>r. 1 + depth r) rs)" for cs rs
  proof -
    assume "map (map_of vertices) cs = map Some rs"
    then have "length cs = length rs" by (metis length_map)
    moreover have "sum_list (map (\<lambda>r. 1 + depth r) rs) = int (length rs) + sum_list (map depth rs)"
      by (induction rs) auto
    ultimately show ?thesis by simp
  qed
  from c show ?thesis unfolding canonical_def by (auto split: if_splits dest: len)
qed

theorem hash_trees_identity_and_weight_witness:
  "hash_trees (PySet [0, 1, 2, 3] :: (nat, unit) vcoll,
               [(0, [2, 1]), (1, [3]), (2, [3]), (3, [])],
               [(0, 4), (1, 3), (2, 2), (3, 1)],
               [(0, ''a''), (1, ''b''), (2, ''b''), (3, ''c'')])
     = Inr ([(3, \<lparr>depth = 0, occ = 1, ident = ''c''\<rparr>),
             (2, \<lparr>depth = 1, occ = 1, ident = ''b(c)''\<rparr>),
             (1, \<lparr>depth = 1, occ = 1, ident = ''b(c)''\<rparr>),
             (0, \<lparr>depth = 4, occ = 1, ident = ''a(b(c),b(c))''\<rparr>)],
            [(''c'', [3]), (''b(c)'', [2, 1]), (''a(b(c),b(c))'', [0])],
            [3, 2, 1, 0])
   \<and> map_of [(3::nat, \<lparr>depth = 0, occ = 1, ident = ''c''\<rparr>),
              (2, \<lparr>depth = 1, occ = 1, ident = ''b(c)''\<rparr>),
              (1, \<lparr>depth = 1, occ = 1, ident = ''b(c)''\<rparr>),
              (0, \<lparr>depth = 4, occ = 1, ident = ''a(b(c),b(c))''\<rparr>)] 0
       = Some \<lparr>depth = int (length [2::nat, 1]) + sum_list [1, 1], occ = 1,
               ident = ''a'' @ ''('' @ join '','' [''b(c)'', ''b(c)''] @ '')''\<rparr>"
proof -
  let ?tree = "(PySet [0, 1, 2, 3] :: (nat, unit) vcoll,
               [(0::nat, [2, 1]), (1, [3]), (2, [3]), (3, [])],
               [(0::nat, 4::int), (1, 3), (2, 2), (3, 1)],
               [(0::nat, ''a''), (1, ''b''), (2, ''b''), (3, ''c'')])"
  have h: "hash_trees ?tree
     = Inr ([(3, \<lparr>depth = 0, occ = 1, ident = ''c''\<rparr>),
             (2, \<lparr>depth = 1, occ = 1, ident = ''b(c)''\<rparr>),
             (1, \<lparr>depth = 1, occ = 1, ident = ''b(c)''\<rparr>),
             (0, \<lparr>depth = 4, occ = 1, ident = ''a(b(c),b(c))''\<rparr>)],
            [(''c'', [3]), (''b(c)'', [2, 1]), (''a(b(c),b(c))'', [0])],
            [3, 2, 1, 0])"
    by code_simp
  have m: "members (PySet [0, 1, 2, 3] :: (nat, unit) vcoll) = Inr [0, 1, 2, 3]"
    by (simp add: members_def)
  have d: "distinct [0::nat, 1, 2, 3]" by simp
  have v: "(0::nat) \<in> set [0, 1, 2, 3]" by simp
  from hash_trees_identity_and_weight [OF h m d v] h show ?thesis by simp
qed

subsection \<open>C4: children are visited before their parents\<close>

text \<open>The edges into \<open>w\<close> from the vertices outside \<open>P\<close>, counted with repetition.\<close>

definition pending :: "('v, 'v list) dict \<Rightarrow> 'v set \<Rightarrow> 'v \<Rightarrow> nat" where
  "pending es P w = sum_list (map (\<lambda>(u, cs). if u \<in> P then 0 else count_list cs w) es)"

lemma pending_pop:
  "distinct (map fst es) \<Longrightarrow> map_of es e = Some ks \<Longrightarrow> e \<notin> P \<Longrightarrow>
   pending es (insert e P) w + count_list ks w = pending es P w"
proof (induction es)
  case Nil
  then show ?case by simp
next
  case (Cons p es)
  obtain u cs where p: "p = (u, cs)" by (cases p)
  show ?case
  proof (cases "u = e")
    case True
    with Cons.prems p have ks: "cs = ks" and notin: "e \<notin> fst ` set es" by auto
    have "pending es (insert e P) w = pending es P w"
      unfolding pending_def
    proof (rule arg_cong [where f = sum_list], rule map_cong [OF refl])
      fix x assume "x \<in> set es"
      with notin have "fst x \<noteq> e" by force
      then show "(case x of (u, cs) \<Rightarrow> if u \<in> insert e P then 0 else count_list cs w)
               = (case x of (u, cs) \<Rightarrow> if u \<in> P then 0 else count_list cs w)"
        by (cases x) auto
    qed
    with True p ks Cons.prems(3) show ?thesis by (simp add: pending_def)
  next
    case False
    with Cons.prems p have "map_of es e = Some ks" "distinct (map fst es)" by auto
    from Cons.IH [OF this(2,1) Cons.prems(3)] False p show ?thesis
      by (simp add: pending_def)
  qed
qed

lemma pending_zero:
  "pending es P w = 0 \<Longrightarrow> (u, cs) \<in> set es \<Longrightarrow> w \<in> set cs \<Longrightarrow> u \<in> P"
proof (induction es)
  case Nil
  then show ?case by simp
next
  case (Cons p es)
  then show ?case
    by (cases p) (auto simp: pending_def count_list_0_iff split: if_splits)
qed

lemma pending_empty: "pending es {} w = count_list (concat (map snd es)) w"
  by (induction es) (auto simp: pending_def)

lemma count_edge_apply:
  "count_edge v (ind, zero)
     = ((case map_of ind v of None \<Rightarrow> AList.update v 1 ind
         | Some c \<Rightarrow> AList.update v (c + 1) ind), removeAll v zero)"
  by (simp add: count_edge_def)

lemma count_edge_fold:
  "fold count_edge xs (ind, zero) = (ind', zero') \<Longrightarrow>
   zero' = filter (\<lambda>x. x \<notin> set xs) zero
   \<and> (\<forall>w. map_of ind' w =
         (case map_of ind w of
            None \<Rightarrow> if count_list xs w = 0 then None else Some (int (count_list xs w))
          | Some c \<Rightarrow> Some (c + int (count_list xs w))))"
proof (induction xs arbitrary: ind zero)
  case Nil
  then show ?case by (auto split: option.splits)
next
  case (Cons x xs)
  let ?ind1 = "case map_of ind x of None \<Rightarrow> AList.update x 1 ind
               | Some c \<Rightarrow> AList.update x (c + 1) ind"
  from Cons.prems have "fold count_edge xs (?ind1, removeAll x zero) = (ind', zero')"
    by (simp add: count_edge_apply)
  from Cons.IH [OF this]
  have z: "zero' = filter (\<lambda>y. y \<notin> set xs) (removeAll x zero)"
    and m: "\<And>w. map_of ind' w =
         (case map_of ?ind1 w of
            None \<Rightarrow> if count_list xs w = 0 then None else Some (int (count_list xs w))
          | Some c \<Rightarrow> Some (c + int (count_list xs w)))" by blast+
  have "zero' = filter (\<lambda>y. y \<notin> set (x # xs)) zero"
    unfolding z by (induction zero) auto
  moreover have "map_of ind' w =
         (case map_of ind w of
            None \<Rightarrow> if count_list (x # xs) w = 0 then None else Some (int (count_list (x # xs) w))
          | Some c \<Rightarrow> Some (c + int (count_list (x # xs) w)))" for w
    unfolding m [of w]
    by (cases "map_of ind x"; cases "w = x") (auto simp: update_conv' split: option.splits)
  ultimately show ?case by blast
qed

lemma relax_apply:
  "relax k (ind, q) =
     (case map_of ind k of
        None \<Rightarrow> (ind, q)
      | Some c \<Rightarrow> if c = 1 then (AList.delete k ind, q @ [k])
                  else (AList.update k (c - 1) ind, q))"
  by (simp add: relax_def)

lemma relax_fold_inv:
  assumes "fold relax ks (ind, q) = (ind', q')"
    and "\<forall>w. 0 < pend w + count_list ks w \<longrightarrow>
           (\<exists>c. map_of ind w = Some c \<and> int (pend w + count_list ks w) \<le> c)"
    and "distinct q" and "set q \<inter> P = {}"
    and "\<forall>k c. map_of ind k = Some c \<longrightarrow> k \<notin> P \<and> k \<notin> set q"
  shows "(\<forall>w. 0 < pend w \<longrightarrow> (\<exists>c. map_of ind' w = Some c \<and> int (pend w) \<le> c))
         \<and> distinct q' \<and> set q' \<inter> P = {}
         \<and> (\<forall>k c. map_of ind' k = Some c \<longrightarrow> k \<notin> P \<and> k \<notin> set q')
         \<and> set q \<subseteq> set q'"
  using assms
proof (induction ks arbitrary: ind q)
  case Nil
  then show ?case by simp
next
  case (Cons k ks)
  note cnt = Cons.prems(2) and dq = Cons.prems(3) and qP = Cons.prems(4) and fresh = Cons.prems(5)
  from cnt [rule_format, of k] obtain c where c: "map_of ind k = Some c"
    and cle: "int (pend k + count_list (k # ks) k) \<le> c" by auto
  show ?case
  proof (cases "c = 1")
    case True
    let ?ind1 = "AList.delete k ind"
    from Cons.prems(1) c True have f: "fold relax ks (?ind1, q @ [k]) = (ind', q')"
      by (simp add: relax_apply)
    from cle True have zero: "pend k + count_list ks k = 0" by simp
    have a: "\<forall>w. 0 < pend w + count_list ks w \<longrightarrow>
           (\<exists>c. map_of ?ind1 w = Some c \<and> int (pend w + count_list ks w) \<le> c)"
    proof (intro allI impI)
      fix w assume pos: "0 < pend w + count_list ks w"
      with zero have "w \<noteq> k" by auto
      with cnt [rule_format, of w] pos show
        "\<exists>c. map_of ?ind1 w = Some c \<and> int (pend w + count_list ks w) \<le> c"
        by (auto simp: delete_conv')
    qed
    from fresh c have kq: "k \<notin> set q" "k \<notin> P" by auto
    with dq qP have b: "distinct (q @ [k])" "set (q @ [k]) \<inter> P = {}" by auto
    have cc: "\<forall>x c. map_of ?ind1 x = Some c \<longrightarrow> x \<notin> P \<and> x \<notin> set (q @ [k])"
      using fresh by (auto simp: delete_conv' split: if_splits)
    from Cons.IH [OF f a b cc] show ?thesis by auto
  next
    case False
    let ?ind1 = "AList.update k (c - 1) ind"
    from Cons.prems(1) c False have f: "fold relax ks (?ind1, q) = (ind', q')"
      by (simp add: relax_apply)
    have a: "\<forall>w. 0 < pend w + count_list ks w \<longrightarrow>
           (\<exists>c. map_of ?ind1 w = Some c \<and> int (pend w + count_list ks w) \<le> c)"
    proof (intro allI impI)
      fix w assume pos: "0 < pend w + count_list ks w"
      show "\<exists>c. map_of ?ind1 w = Some c \<and> int (pend w + count_list ks w) \<le> c"
      proof (cases "w = k")
        case True
        with cle show ?thesis by (simp add: update_conv')
      next
        case False
        with cnt [rule_format, of w] pos show ?thesis by (auto simp: update_conv')
      qed
    qed
    have cc: "\<forall>x c. map_of ?ind1 x = Some c \<longrightarrow> x \<notin> P \<and> x \<notin> set q"
      using fresh c by (auto simp: update_conv' split: if_splits)
    from Cons.IH [OF f a dq qP cc] show ?thesis by auto
  qed
qed

text \<open>
  The invariant of Kahn's loop, for the vertices ranked so far: the in-degree counted for
  \<open>w\<close> covers the edges into \<open>w\<close> from unranked vertices; the frontier has no repetition
  and no ranked vertex; a vertex with a counted in-degree is neither ranked nor in the
  frontier; the ranks given are above the counter; and a ranked child has a ranked parent
  of higher rank.
\<close>

definition kahn_inv ::
  "('v, 'v list) dict \<Rightarrow> 'v list \<Rightarrow> ('v, int) dict \<Rightarrow> ('v, int) dict \<Rightarrow> int \<Rightarrow> bool" where
  "kahn_inv es q ind ranks n \<longleftrightarrow>
     (\<forall>w. 0 < pending es (fst ` set ranks) w \<longrightarrow>
        (\<exists>c. map_of ind w = Some c \<and> int (pending es (fst ` set ranks) w) \<le> c))
     \<and> distinct q \<and> set q \<inter> fst ` set ranks = {}
     \<and> (\<forall>k c. map_of ind k = Some c \<longrightarrow> k \<notin> fst ` set ranks \<and> k \<notin> set q)
     \<and> (\<forall>x r. map_of ranks x = Some r \<longrightarrow> n < r)
     \<and> (\<forall>u cs w. (u, cs) \<in> set es \<and> w \<in> set cs \<and> w \<in> fst ` set ranks \<longrightarrow>
           (\<exists>ru rw. map_of ranks u = Some ru \<and> map_of ranks w = Some rw \<and> rw < ru))"

definition descending :: "('v, 'v list) dict \<Rightarrow> ('v, int) dict \<Rightarrow> bool" where
  "descending es ranks \<longleftrightarrow>
     (\<forall>u cs w. (u, cs) \<in> set es \<and> w \<in> set cs \<and> w \<in> fst ` set ranks \<longrightarrow>
        (\<exists>ru rw. map_of ranks u = Some ru \<and> map_of ranks w = Some rw \<and> rw < ru))"

lemma kahn_inv_pop:
  assumes inv: "kahn_inv es q ind ranks n" and dist: "distinct (map fst es)"
    and sorted: "sort_by key q = Inr (e # q')" and ks: "map_of es e = Some ks"
    and f: "fold relax ks (ind, q') = (ind', q'')"
  shows "kahn_inv es q'' ind' (AList.update e n ranks) (n - 1)"
    and "set q' \<subseteq> set q''" and "set q = insert e (set q')"
proof -
  let ?P = "fst ` set ranks"
  let ?ranks' = "AList.update e n ranks"
  from inv have all:
    "(\<forall>w. 0 < pending es ?P w \<longrightarrow>
        (\<exists>c. map_of ind w = Some c \<and> int (pending es ?P w) \<le> c))
     \<and> distinct q \<and> set q \<inter> ?P = {}
     \<and> (\<forall>k c. map_of ind k = Some c \<longrightarrow> k \<notin> ?P \<and> k \<notin> set q)
     \<and> (\<forall>x r. map_of ranks x = Some r \<longrightarrow> n < r)
     \<and> (\<forall>u cs w. (u, cs) \<in> set es \<and> w \<in> set cs \<and> w \<in> ?P \<longrightarrow>
           (\<exists>ru rw. map_of ranks u = Some ru \<and> map_of ranks w = Some rw \<and> rw < ru))"
    unfolding kahn_inv_def .
  note cnt = all [THEN conjunct1, rule_format]
  note dq = all [THEN conjunct2, THEN conjunct1]
  note qP = all [THEN conjunct2, THEN conjunct2, THEN conjunct1]
  note fresh = all [THEN conjunct2, THEN conjunct2, THEN conjunct2, THEN conjunct1, rule_format]
  note above = all [THEN conjunct2, THEN conjunct2, THEN conjunct2, THEN conjunct2,
      THEN conjunct1, rule_format]
  note desc0 = all [THEN conjunct2, THEN conjunct2, THEN conjunct2, THEN conjunct2,
      THEN conjunct2, rule_format]
  have desc: "\<exists>ru rw. map_of ranks u = Some ru \<and> map_of ranks w = Some rw \<and> rw < ru"
    if "(u, cs) \<in> set es" "w \<in> set cs" "w \<in> ?P" for u cs w
    using desc0 [of u cs w] that by simp
  from sort_by_sort_key [OF sorted] have perm: "e # q' = sort_key (\<lambda>x. the (key x)) q" .
  have sq: "set (e # q') = set q" unfolding perm by simp
  have dq': "distinct (e # q')" unfolding perm using dq by simp
  from sq show "set q = insert e (set q')" by auto
  from sq have eq: "e \<in> set q" by auto
  with qP have eP: "e \<notin> ?P" by auto
  from eq fresh have eind: "map_of ind e = None"
    by (cases "map_of ind e") auto
  have P': "fst ` set ?ranks' = insert e ?P" by (simp add: dom_update)
  have pend: "pending es (insert e ?P) w + count_list ks w = pending es ?P w" for w
    using dist ks eP by (rule pending_pop)
  have a: "\<forall>w. 0 < pending es (insert e ?P) w + count_list ks w \<longrightarrow>
           (\<exists>c. map_of ind w = Some c
                \<and> int (pending es (insert e ?P) w + count_list ks w) \<le> c)"
    using cnt by (simp add: pend)
  from dq' have b1: "distinct q'" by simp
  have b2: "set q' \<inter> insert e ?P = {}" using dq' sq qP by auto
  have cc: "\<forall>k c. map_of ind k = Some c \<longrightarrow> k \<notin> insert e ?P \<and> k \<notin> set q'"
    using fresh eind sq by auto
  note rf = relax_fold_inv [OF f a b1 b2 cc]
  note a' = rf [THEN conjunct1, rule_format]
  note b' = rf [THEN conjunct2, THEN conjunct1] rf [THEN conjunct2, THEN conjunct2, THEN conjunct1]
  note c' = rf [THEN conjunct2, THEN conjunct2, THEN conjunct2, THEN conjunct1, rule_format]
  note sub = rf [THEN conjunct2, THEN conjunct2, THEN conjunct2, THEN conjunct2]
  from sub show "set q' \<subseteq> set q''" .
  have above': "n - 1 < r" if "map_of ?ranks' x = Some r" for x r
    using that above [of x r] by (cases "x = e") (auto simp: update_conv')
  have same: "map_of ?ranks' x = map_of ranks x" if "x \<in> ?P" for x
    using that eP by (auto simp: update_conv')
  have desc': "\<exists>ru rw. map_of ?ranks' u = Some ru \<and> map_of ?ranks' w = Some rw \<and> rw < ru"
    if uc: "(u, cs) \<in> set es" and w: "w \<in> set cs" and wP: "w \<in> insert e ?P" for u cs w
  proof (cases "w = e")
    case True
    from cnt [of e] eind have "pending es ?P e = 0" by (cases "pending es ?P e") auto
    from pending_zero [OF this uc] w True have uP: "u \<in> ?P" by simp
    then obtain ru where ru: "map_of ranks u = Some ru"
      by (cases "map_of ranks u") (auto simp: map_of_eq_None_iff)
    from above [OF ru] same [OF uP] ru True show ?thesis by (simp add: update_conv')
  next
    case False
    with wP have wP': "w \<in> ?P" by simp
    from desc [OF uc w wP'] obtain ru rw where
      r: "map_of ranks u = Some ru" "map_of ranks w = Some rw" "rw < ru" by blast
    from r(1) have "(u, ru) \<in> set ranks" by (rule map_of_SomeD)
    then have "u \<in> ?P" by force
    from same [OF this] same [OF wP'] r show ?thesis by simp
  qed
  show "kahn_inv es q'' ind' ?ranks' (n - 1)"
    unfolding kahn_inv_def P'
  proof (intro conjI allI impI)
    fix w assume "0 < pending es (insert e ?P) w"
    then show "\<exists>c. map_of ind' w = Some c \<and> int (pending es (insert e ?P) w) \<le> c"
      by (rule a')
  next
    show "distinct q''" by (rule b'(1))
  next
    show "set q'' \<inter> insert e ?P = {}" by (rule b'(2))
  next
    fix k c assume "map_of ind' k = Some c"
    from c' [OF this] show "k \<notin> insert e ?P" by simp
  next
    fix k c assume "map_of ind' k = Some c"
    from c' [OF this] show "k \<notin> set q''" by simp
  next
    fix x r assume "map_of ?ranks' x = Some r"
    then show "n - 1 < r" by (rule above')
  next
    fix u cs w assume "(u, cs) \<in> set es \<and> w \<in> set cs \<and> w \<in> insert e ?P"
    then show "\<exists>ru rw. map_of ?ranks' u = Some ru \<and> map_of ?ranks' w = Some rw \<and> rw < ru"
      using desc' by blast
  qed
qed

lemma kahn_unfold:
  assumes "kahn es labels q ind ranks n = Inr ranks'" and "q \<noteq> []"
  obtains e q' ks ind' q'' where "sort_by (map_of labels) q = Inr (e # q')"
    and "map_of es e = Some ks" and "fold relax ks (ind, q') = (ind', q'')"
    and "kahn es labels q'' ind' (AList.update e n ranks) (n - 1) = Inr ranks'"
proof -
  from assms have k: "(case sort_by (map_of labels) q of
           Inl err \<Rightarrow> Inl err
         | Inr [] \<Rightarrow> Inl IndexError
         | Inr (e # q') \<Rightarrow>
             (case map_of es e of
                None \<Rightarrow> Inl KeyError
              | Some ks \<Rightarrow>
                  (case fold relax ks (ind, q') of
                     (indegrees', q'') \<Rightarrow>
                       kahn es labels q'' indegrees'
                         (AList.update e n ranks) (n - 1)))) = Inr ranks'"
    by (subst (asm) kahn.simps) simp
  then obtain b where b: "sort_by (map_of labels) q = Inr b"
    by (cases "sort_by (map_of labels) q") auto
  with k obtain e q' where eq: "b = e # q'" by (cases b) auto
  with k b obtain ks where ks: "map_of es e = Some ks" by (cases "map_of es e") auto
  obtain ind' q'' where f: "fold relax ks (ind, q') = (ind', q'')"
    by (cases "fold relax ks (ind, q')")
  from k b eq ks f have "kahn es labels q'' ind' (AList.update e n ranks) (n - 1) = Inr ranks'"
    by simp
  with b eq ks f that show thesis by blast
qed

lemma kahn_descending:
  "kahn es labels q ind ranks n = Inr ranks' \<Longrightarrow> distinct (map fst es) \<Longrightarrow>
   kahn_inv es q ind ranks n \<Longrightarrow>
   descending es ranks' \<and> set q \<subseteq> fst ` set ranks' \<and> fst ` set ranks \<subseteq> fst ` set ranks'
   \<and> (\<forall>x \<in> fst ` set ranks'. x \<in> fst ` set ranks \<or> map_of labels x \<noteq> None)"
proof (induction es labels q ind ranks n rule: kahn.induct)
  case (1 edges labels q indegrees ranks n)
  show ?case
  proof (cases "q = []")
    case True
    with "1.prems"(1) have r: "ranks' = ranks" by (simp add: kahn.simps)
    from "1.prems"(3) have "descending edges ranks"
      unfolding kahn_inv_def descending_def by (elim conjE)
    with r True show ?thesis by simp
  next
    case False
    from "1.prems"(1) False obtain e q' ks indegrees' q'' where
      sorted: "sort_by (map_of labels) q = Inr (e # q')"
      and ks: "map_of edges e = Some ks"
      and f: "fold relax ks (indegrees, q') = (indegrees', q'')"
      and rest: "kahn edges labels q'' indegrees' (AList.update e n ranks) (n - 1) = Inr ranks'"
      by (rule kahn_unfold)
    note pop = kahn_inv_pop [OF "1.prems"(3,2) sorted ks f]
    from "1.IH" [OF False sorted refl ks f [symmetric] rest "1.prems"(2) pop(1)]
    have d: "descending edges ranks'" and q'': "set q'' \<subseteq> fst ` set ranks'"
      and mono: "fst ` set (AList.update e n ranks) \<subseteq> fst ` set ranks'"
      and lab: "\<forall>x \<in> fst ` set ranks'. x \<in> fst ` set (AList.update e n ranks)
                  \<or> map_of labels x \<noteq> None"
      by blast+
    from mono have e: "e \<in> fst ` set ranks'" and m: "fst ` set ranks \<subseteq> fst ` set ranks'"
      by (auto simp: dom_update)
    from pop(2,3) q'' e have qs: "set q \<subseteq> fst ` set ranks'" by auto
    from sort_by_keys_defined [OF sorted, of e] pop(3) have le: "map_of labels e \<noteq> None" by auto
    have "\<forall>x \<in> fst ` set ranks'. x \<in> fst ` set ranks \<or> map_of labels x \<noteq> None"
    proof
      fix x assume "x \<in> fst ` set ranks'"
      with lab have "x \<in> fst ` set (AList.update e n ranks) \<or> map_of labels x \<noteq> None" by blast
      then have "x = e \<or> x \<in> fst ` set ranks \<or> map_of labels x \<noteq> None"
        by (simp add: dom_update)
      with le show "x \<in> fst ` set ranks \<or> map_of labels x \<noteq> None" by blast
    qed
    with d qs m show ?thesis by blast
  qed
qed

lemma sort_edges_result:
  "sort_edges key es = Inr es' \<Longrightarrow> map_of es' u = Some cs' \<Longrightarrow>
   \<exists>cs. (u, cs) \<in> set es \<and> set cs' = set cs \<and> (\<forall>w \<in> set cs. key w \<noteq> None)"
proof (induction key es arbitrary: es' rule: sort_edges.induct)
  case (1 key)
  then show ?case by simp
next
  case (2 key k e es)
  from "2.prems"(1) obtain e' rest where e': "sort_by key e = Inr e'"
    and rest: "sort_edges key es = Inr rest" and es': "es' = (k, e') # rest"
    by (auto split: sum.splits)
  show ?case
  proof (cases "u = k")
    case True
    with "2.prems"(2) es' have "cs' = e'" by simp
    moreover from sort_by_sort_key [OF e'] have "set e' = set e" by simp
    moreover from sort_by_keys_defined [OF e'] have "\<forall>w \<in> set e. key w \<noteq> None" by auto
    ultimately show ?thesis using True by auto
  next
    case False
    with "2.prems"(2) es' have "map_of rest u = Some cs'" by simp
    from "2.IH" [OF e' rest this] show ?thesis by auto
  qed
qed

lemma sort_edges_all_ranked:
  "sort_edges key es = Inr es' \<Longrightarrow> (u, cs) \<in> set es \<Longrightarrow> w \<in> set cs \<Longrightarrow> key w \<noteq> None"
proof (induction key es arbitrary: es' rule: sort_edges.induct)
  case (1 key)
  then show ?case by simp
next
  case (2 key k e es)
  from "2.prems"(1) obtain e' rest where e': "sort_by key e = Inr e'"
    and rest: "sort_edges key es = Inr rest"
    by (auto split: sum.splits)
  from "2.prems"(2) have "(u, cs) = (k, e) \<or> (u, cs) \<in> set es" by simp
  then show ?case
  proof
    assume "(u, cs) = (k, e)"
    with sort_by_keys_defined [OF e', of w] "2.prems"(3) show ?thesis by auto
  next
    assume "(u, cs) \<in> set es"
    from "2.IH" [OF e' rest this "2.prems"(3)] show ?thesis .
  qed
qed

lemma kahn_inv_initial:
  assumes "fold count_edge (concat (map snd es)) ([], vs) = (ind, zero)" and "distinct vs"
  shows "kahn_inv es zero ind [] n"
proof -
  let ?xs = "concat (map snd es)"
  note cf = count_edge_fold [OF assms(1)]
  from cf have z: "zero = filter (\<lambda>x. x \<notin> set ?xs) vs" by blast
  from cf have m: "map_of ind w =
      (if count_list ?xs w = 0 then None else Some (int (count_list ?xs w)))" for w
    by simp
  show ?thesis
    unfolding kahn_inv_def
  proof (intro conjI allI impI)
    fix w assume "0 < pending es (fst ` set []) w"
    then show "\<exists>c. map_of ind w = Some c \<and> int (pending es (fst ` set []) w) \<le> c"
      by (simp add: pending_empty m)
  next
    show "distinct zero" using assms(2) z by simp
  next
    show "set zero \<inter> fst ` set [] = {}" by simp
  next
    fix k c assume "map_of ind k = Some c"
    then show "k \<notin> fst ` set []" by simp
  next
    fix k c assume "map_of ind k = Some c"
    with m [of k] have "count_list ?xs k \<noteq> 0" by (auto split: if_splits)
    then have "k \<in> set ?xs" by (simp add: count_list_0_iff)
    then show "k \<notin> set zero" unfolding z by simp
  next
    fix x and r :: int assume "map_of [] x = Some r"
    then show "n < r" by simp
  next
    fix u cs w assume "(u, cs) \<in> set es \<and> w \<in> set cs \<and> w \<in> fst ` set []"
    then show "\<exists>ru rw :: int. map_of [] u = Some ru \<and> map_of [] w = Some rw \<and> rw < ru"
      by simp
  qed
qed

lemma sorted_key_before:
  assumes "sorted (map f xs)" and "a \<in> set xs" and "b \<in> set xs" and "f a < f b"
  shows "\<exists>pre mid post. xs = pre @ a # mid @ b # post"
proof -
  from assms(3) obtain ys zs where xs: "xs = ys @ b # zs" by (auto dest: split_list)
  have "a \<notin> set zs"
  proof
    assume "a \<in> set zs"
    with assms(1) xs have "f b \<le> f a" by (auto simp: sorted_append)
    with assms(4) show False by simp
  qed
  moreover from assms(4) have "a \<noteq> b" by auto
  ultimately have "a \<in> set ys" using assms(2) xs by auto
  then obtain pre mid where "ys = pre @ a # mid" by (auto dest: split_list)
  with xs show ?thesis by auto
qed

lemma in_keys_iff: "x \<in> fst ` set al \<longleftrightarrow> (\<exists>v. map_of al x = Some v)"
  by (cases "map_of al x") (auto simp: map_of_eq_None_iff dest: map_of_SomeD intro: rev_image_eqI)

lemma sort_by_succeeds:
  assumes "\<forall>x \<in> set xs. key x \<noteq> None"
  shows "\<exists>ys. sort_by key xs = Inr ys"
proof -
  from assms have "\<exists>ks. those (map key xs) = Some ks"
    by (induction xs) auto
  then show ?thesis by (auto simp: sort_by_def)
qed

lemma rank_key_Some:
  "rank_key ranks ls x = Some k \<longleftrightarrow>
     (\<exists>r l. map_of ranks x = Some r \<and> map_of ls x = Some l \<and> k = (r, l))"
  by (auto simp: rank_key_def split: option.splits)

lemma odd_dag_unfold:
  assumes "odd_dag vertices es ls = Inr (vertices', es', ranks, ls')"
    and "members vertices = Inr vs"
  obtains ind zero where "fold count_edge (concat (map snd es)) ([], vs) = (ind, zero)"
    and "kahn es ls zero ind [] (int (length vs)) = Inr ranks"
    and "sort_edges (rank_key ranks ls) es = Inr es'"
    and "vertices' = vertices" and "ls' = ls"
proof -
  from assms(2) have vs: "(case vertices of PySet xs \<Rightarrow> Inr xs | PyDict d \<Rightarrow> Inr (map fst d)
                           | PyOther \<Rightarrow> Inl ValueError) = Inr vs"
    by (cases vertices) (auto simp: members_def)
  obtain ind zero where f: "fold count_edge (concat (map snd es)) ([], vs) = (ind, zero)"
    by (cases "fold count_edge (concat (map snd es)) ([], vs)")
  from assms(1) have k: "(case kahn es ls zero ind [] (int (length vs)) of
                  Inl err \<Rightarrow> Inl err
                | Inr ordering' \<Rightarrow>
                    (case sort_edges (rank_key ordering' ls) es of
                       Inl err \<Rightarrow> Inl err
                     | Inr edges' \<Rightarrow> Inr (vertices, edges', ordering', ls)))
              = Inr (vertices', es', ranks, ls')"
    unfolding odd_dag_def vs by (simp add: f)
  then obtain r where r: "kahn es ls zero ind [] (int (length vs)) = Inr r"
    by (cases "kahn es ls zero ind [] (int (length vs))") auto
  with k obtain e where e: "sort_edges (rank_key r ls) es = Inr e"
    by (cases "sort_edges (rank_key r ls) es") auto
  from k r e have "vertices' = vertices" "es' = e" "ranks = r" "ls' = ls" by simp_all
  with f r e that show thesis by blast
qed

text \<open>
  The order of rank and label. For an edge map whose keys are distinct and a vertex
  collection without repetition, that order exists whenever the orderer returns, it is the
  only order \<^verbatim>\<open>hash_trees\<close> can return, and in it every child \<open>w\<close> of a sorted edge list of
  \<open>u\<close> stands strictly before \<open>u\<close>, for \<open>u\<close> and \<open>w\<close> of the vertex collection.
\<close>

lemma rank_order_children_first:
  assumes "odd_dag vertices edges labels = Inr (vertices', edges', ordering', labels')"
    and "members vertices = Inr vs" and "distinct vs" and "distinct (map fst edges)"
  shows "\<exists>v_ordered. sort_by (rank_key ordering' labels') vs = Inr v_ordered
           \<and> (\<forall>vertices'' hm vo.
                 hash_trees (vertices', edges', ordering', labels') = Inr (vertices'', hm, vo) \<longrightarrow>
                 vo = v_ordered)
           \<and> (\<forall>u cs w. map_of edges' u = Some cs \<and> w \<in> set cs \<and> u \<in> set vs \<and> w \<in> set vs \<longrightarrow>
                 (\<exists>pre mid post. v_ordered = pre @ w # mid @ u # post))"
proof -
  from assms(1,2) obtain ind zero where
    f: "fold count_edge (concat (map snd edges)) ([], vs) = (ind, zero)"
    and k: "kahn edges labels zero ind [] (int (length vs)) = Inr ordering'"
    and se: "sort_edges (rank_key ordering' labels) edges = Inr edges'"
    and vs': "vertices' = vertices" and ls: "labels' = labels"
    by (rule odd_dag_unfold)
  let ?key = "rank_key ordering' labels"
  note kd = kahn_descending [OF k assms(4) kahn_inv_initial [OF f assms(3)]]
  from kd have desc: "descending edges ordering'" by (rule conjunct1)
  from kd have zr: "set zero \<subseteq> fst ` set ordering'" by (elim conjE)
  from kd have lab: "\<forall>x \<in> fst ` set ordering'. map_of labels x \<noteq> None" by simp
  from count_edge_fold [OF f] have z: "zero = filter (\<lambda>x. x \<notin> set (concat (map snd edges))) vs"
    by blast
  have ranked: "?key v \<noteq> None" if v: "v \<in> set vs" for v
  proof (cases "v \<in> set (concat (map snd edges))")
    case True
    then obtain u cs where "(u, cs) \<in> set edges" "v \<in> set cs" by force
    then show ?thesis by (rule sort_edges_all_ranked [OF se])
  next
    case False
    with v z have "v \<in> set zero" by simp
    with zr have r: "v \<in> fst ` set ordering'" by auto
    then obtain rv where "map_of ordering' v = Some rv" by (auto simp: in_keys_iff)
    moreover from lab r obtain l where "map_of labels v = Some l" by auto
    ultimately show ?thesis by (simp add: rank_key_def)
  qed
  then obtain v_ordered where vo: "sort_by ?key vs = Inr v_ordered"
    using sort_by_succeeds [of vs ?key] by auto
  from sort_by_sort_key [OF vo]
  have sorted: "sorted (map (\<lambda>x. the (?key x)) v_ordered)" and sv: "set v_ordered = set vs"
    by simp_all
  have before: "\<exists>pre mid post. v_ordered = pre @ w # mid @ u # post"
    if e: "map_of edges' u = Some cs" "w \<in> set cs" and uv: "u \<in> set vs" and wv: "w \<in> set vs"
    for u cs w
  proof -
    from sort_edges_result [OF se e(1)] e(2) obtain cs0 where
      c0: "(u, cs0) \<in> set edges" "w \<in> set cs0" and "?key w \<noteq> None" by auto
    then obtain kw where "?key w = Some kw" by auto
    then have "w \<in> fst ` set ordering'" by (auto simp: rank_key_Some in_keys_iff)
    with desc c0 obtain ru rw where r: "map_of ordering' u = Some ru"
      "map_of ordering' w = Some rw" "rw < ru"
      unfolding descending_def by blast
    from ranked [OF uv] r(1) obtain lu where ku: "?key u = Some (ru, lu)"
      by (auto simp: rank_key_Some)
    from ranked [OF wv] r(2) obtain lw where kw: "?key w = Some (rw, lw)"
      by (auto simp: rank_key_Some)
    from ku kw r(3) have "the (?key w) < the (?key u)" by (simp add: less_prod_def)
    with sorted uv wv sv show ?thesis
      by (intro sorted_key_before [where f = "\<lambda>x. the (?key x)"]) simp_all
  qed
  have "vo = v_ordered"
    if "hash_trees (vertices', edges', ordering', labels') = Inr (vertices'', hm, vo)"
    for vertices'' hm vo
    using that vo assms(2) vs' ls by (auto simp: hash_trees_def split: sum.splits)
  with vo before ls show ?thesis by blast
qed

text \<open>The loop of \<^verbatim>\<open>hash_trees\<close>: what it has stored after a prefix of the order, when it
  returns, and that \<^verbatim>\<open>KeyError\<close> is the only exception it raises.\<close>

lemma hash_loop_append:
  "hash_loop edge labels (xs @ ys) s =
     (case hash_loop edge labels xs s of
        Inl err \<Rightarrow> Inl err
      | Inr s' \<Rightarrow> hash_loop edge labels ys s')"
  by (induction xs arbitrary: s) (auto split: sum.splits)

lemma hash_vertex_keys:
  "hash_vertex edge labels v (ents, hm) = Inr (ents', hm') \<Longrightarrow>
   fst ` set ents' = insert v (fst ` set ents)"
proof -
  assume "hash_vertex edge labels v (ents, hm) = Inr (ents', hm')"
  then obtain r where "ents' = AList.update v r ents"
    by (auto simp: hash_vertex_def split: if_splits option.splits sum.splits)
  then show ?thesis by (simp add: dom_update)
qed

lemma hash_loop_keys:
  "hash_loop edge labels xs (ents, hm) = Inr (ents', hm') \<Longrightarrow>
   fst ` set ents' = fst ` set ents \<union> set xs"
proof (induction xs arbitrary: ents hm)
  case Nil
  then show ?case by simp
next
  case (Cons x xs)
  from Cons.prems obtain e1 h1 where
    st: "hash_vertex edge labels x (ents, hm) = Inr (e1, h1)"
    and rest: "hash_loop edge labels xs (e1, h1) = Inr (ents', hm')"
    by (auto split: sum.splits)
  from Cons.IH [OF rest] hash_vertex_keys [OF st] show ?case by auto
qed

lemma children_entries:
  "children ents ns acc = Inr res \<Longrightarrow> w \<in> set ns \<Longrightarrow> \<exists>r. map_of ents w = Some r"
  by (induction ns arbitrary: acc) (auto split: option.splits)

lemma children_succeeds:
  "\<forall>n \<in> set ns. map_of ents n \<noteq> None \<Longrightarrow> \<exists>res. children ents ns acc = Inr res"
  by (induction ns arbitrary: acc) auto

lemma hash_vertex_child_entry:
  assumes "hash_vertex edge labels u (ents, hm) = Inr s'"
    and "map_of edge u = Some cs" and "w \<in> set cs"
  shows "\<exists>r. map_of ents w = Some r"
proof -
  from assms(2,3) have ne: "\<not> (case map_of edge u of None \<Rightarrow> True | Some cs \<Rightarrow> length cs = 0)"
    by auto
  with assms(1,2) obtain res where "children ents cs (0, []) = Inr res"
    by (auto simp: hash_vertex_def split: sum.splits)
  from children_entries [OF this assms(3)] show ?thesis .
qed

lemma hash_vertex_succeeds:
  assumes "map_of labels v \<noteq> None"
    and "\<And>cs w. map_of edge v = Some cs \<Longrightarrow> w \<in> set cs \<Longrightarrow> map_of ents w \<noteq> None"
  shows "\<exists>s'. hash_vertex edge labels v (ents, hm) = Inr s'"
proof -
  from assms(1) obtain l where l: "map_of labels v = Some l" by auto
  show ?thesis
  proof (cases "case map_of edge v of None \<Rightarrow> True | Some cs \<Rightarrow> length cs = 0")
    case True
    with l show ?thesis by (simp add: hash_vertex_def)
  next
    case False
    then obtain cs where cs: "map_of edge v = Some cs" by (auto split: option.splits)
    with assms(2) have "\<forall>n \<in> set cs. map_of ents n \<noteq> None" by blast
    from children_succeeds [OF this, of "(0, [])"] obtain res where
      "children ents cs (0, []) = Inr res" by blast
    with False cs l show ?thesis by (cases res) (simp add: hash_vertex_def)
  qed
qed

lemma hash_loop_succeeds:
  assumes "\<forall>x \<in> set xs. map_of labels x \<noteq> None"
    and "\<forall>pre x post cs w. xs = pre @ x # post \<and> map_of edge x = Some cs \<and> w \<in> set cs \<longrightarrow>
           w \<in> fst ` set ents \<union> set pre"
  shows "\<exists>s'. hash_loop edge labels xs (ents, hm) = Inr s'"
  using assms
proof (induction xs arbitrary: ents hm)
  case Nil
  then show ?case by simp
next
  case (Cons x xs)
  have "\<exists>s'. hash_vertex edge labels x (ents, hm) = Inr s'"
  proof (rule hash_vertex_succeeds)
    from Cons.prems(1) show "map_of labels x \<noteq> None" by simp
  next
    fix cs w assume "map_of edge x = Some cs" "w \<in> set cs"
    with Cons.prems(2) [rule_format, of "[]" x xs cs w] have "w \<in> fst ` set ents" by simp
    then show "map_of ents w \<noteq> None" by (simp add: map_of_eq_None_iff)
  qed
  then obtain e1 h1 where st: "hash_vertex edge labels x (ents, hm) = Inr (e1, h1)" by force
  from hash_vertex_keys [OF st] have k1: "fst ` set e1 = insert x (fst ` set ents)" .
  have "\<exists>s'. hash_loop edge labels xs (e1, h1) = Inr s'"
  proof (rule Cons.IH)
    from Cons.prems(1) show "\<forall>y \<in> set xs. map_of labels y \<noteq> None" by simp
  next
    show "\<forall>pre y post cs w. xs = pre @ y # post \<and> map_of edge y = Some cs \<and> w \<in> set cs \<longrightarrow>
           w \<in> fst ` set e1 \<union> set pre"
    proof (intro allI impI, elim conjE)
      fix pre y post cs w
      assume "xs = pre @ y # post" "map_of edge y = Some cs" "w \<in> set cs"
      with Cons.prems(2) [rule_format, of "x # pre" y post cs w]
      have "w \<in> fst ` set ents \<union> set (x # pre)" by simp
      with k1 show "w \<in> fst ` set e1 \<union> set pre" by auto
    qed
  qed
  with st show ?case by simp
qed

lemma children_error: "children ents ns acc = Inl e \<Longrightarrow> e = KeyError"
  by (induction ns arbitrary: acc) (auto split: option.splits)

lemma hash_vertex_error: "hash_vertex edge labels v s = Inl e \<Longrightarrow> e = KeyError"
  by (auto simp: hash_vertex_def split: prod.splits if_splits option.splits sum.splits
           dest: children_error)

lemma hash_loop_error: "hash_loop edge labels xs s = Inl e \<Longrightarrow> e = KeyError"
  by (induction xs arbitrary: s) (auto split: sum.splits dest: hash_vertex_error)

lemma distinct_split_unique:
  assumes "distinct (p1 @ x # s1)" and "p1 @ x # s1 = p2 @ x # s2"
  shows "p1 = p2"
proof -
  from assms(1) have "x \<notin> set p1" and "x \<notin> set s1" by auto
  from append_Cons_eq_iff [OF this, of p2 s2] assms(2) show ?thesis by blast
qed

text \<open>
  C4. Let \<^verbatim>\<open>odd\<close> return for an edge dict with distinct keys and a vertex collection \<open>vs\<close>
  without repetition, as a dict and a set are. Then \<^verbatim>\<open>hash_trees\<close> returns on that result
  exactly when every child in the sorted edge list of a vertex of \<open>vs\<close> is itself in \<open>vs\<close>,
  and raises \<^verbatim>\<open>KeyError\<close> otherwise. When it returns, the order \<open>vo\<close> of its visits is the
  vertices sorted by rank and label, each of them once, and for every edge \<open>u \<rightarrow> w\<close> of the
  sorted edge lists with \<open>u\<close> in \<open>vs\<close>: the state that the loop \<^verbatim>\<open>for v in v_ordered\<close> has
  reached just before it visits \<open>u\<close> already holds the entry \<open>r\<close> of \<open>w\<close>, its depth weight
  and identity, and none of \<open>u\<close>, and \<open>r\<close> is still the entry of \<open>w\<close> in the dict returned. The
  child is visited, and assigned its identity and depth weight, strictly before its parent,
  and not after it.
\<close>

theorem children_visited_first:
  assumes "odd_dag vertices edges labels = Inr (vertices', edges', ordering', labels')"
    and "members vertices = Inr vs" and "distinct vs" and "distinct (map fst edges)"
  shows "(if (\<forall>u cs w. map_of edges' u = Some cs \<and> u \<in> set vs \<and> w \<in> set cs \<longrightarrow> w \<in> set vs)
          then (\<exists>ents hm vo. hash_trees (vertices', edges', ordering', labels') = Inr (ents, hm, vo))
          else hash_trees (vertices', edges', ordering', labels') = Inl KeyError)
         \<and> (\<forall>ents hm vo.
               hash_trees (vertices', edges', ordering', labels') = Inr (ents, hm, vo) \<longrightarrow>
               sort_by (rank_key ordering' labels') vs = Inr vo \<and> distinct vo \<and> set vo = set vs
               \<and> hash_loop edges' labels' vo ([], []) = Inr (ents, hm)
               \<and> (\<forall>u cs w. map_of edges' u = Some cs \<and> w \<in> set cs \<and> u \<in> set vs \<longrightarrow>
                     (\<exists>pre post ents_pre hm_pre r.
                         vo = pre @ u # post \<and> w \<in> set pre
                         \<and> hash_loop edges' labels' pre ([], []) = Inr (ents_pre, hm_pre)
                         \<and> map_of ents_pre w = Some r \<and> map_of ents_pre u = None
                         \<and> map_of ents w = Some r)))"
proof -
  have vs': "vertices' = vertices" using assms(1,2) by (rule odd_dag_unfold)
  from rank_order_children_first [OF assms] obtain v_ordered where
    vo: "sort_by (rank_key ordering' labels') vs = Inr v_ordered"
    and before: "\<And>u cs w. map_of edges' u = Some cs \<Longrightarrow> w \<in> set cs \<Longrightarrow> u \<in> set vs \<Longrightarrow>
                  w \<in> set vs \<Longrightarrow> \<exists>pre mid post. v_ordered = pre @ w # mid @ u # post"
    by blast
  from sort_by_sort_key [OF vo] assms(3)
  have dvo: "distinct v_ordered" and svo: "set v_ordered = set vs" by simp_all
  have ht: "hash_trees (vertices', edges', ordering', labels')
            = (case hash_loop edges' labels' v_ordered ([], []) of
                 Inl err \<Rightarrow> Inl err
               | Inr (ents, hm) \<Rightarrow> Inr (ents, hm, v_ordered))"
    using assms(2) vo vs' by (simp add: hash_trees_def)
  have returns: "\<exists>ents hm vo. hash_trees (vertices', edges', ordering', labels') = Inr (ents, hm, vo)"
    if closed: "\<forall>u cs w. map_of edges' u = Some cs \<and> u \<in> set vs \<and> w \<in> set cs \<longrightarrow> w \<in> set vs"
  proof -
    have lab: "\<forall>x \<in> set v_ordered. map_of labels' x \<noteq> None"
    proof
      fix x assume "x \<in> set v_ordered"
      with svo sort_by_keys_defined [OF vo, of x] obtain k where
        "rank_key ordering' labels' x = Some k" by auto
      then show "map_of labels' x \<noteq> None" by (auto simp: rank_key_Some)
    qed
    have pref: "\<forall>pre x post cs w.
        v_ordered = pre @ x # post \<and> map_of edges' x = Some cs \<and> w \<in> set cs \<longrightarrow>
        w \<in> fst ` set ([] :: ('a, vnode) dict) \<union> set pre"
    proof (intro allI impI, elim conjE)
      fix pre x post cs w
      assume split: "v_ordered = pre @ x # post" and cs: "map_of edges' x = Some cs"
        and w: "w \<in> set cs"
      from split svo have xv: "x \<in> set vs" by auto
      from closed xv w cs have wv: "w \<in> set vs" by blast
      from before [OF cs w xv wv] obtain p m q where "v_ordered = p @ w # m @ x # q" by blast
      then have "(p @ w # m) @ x # q = pre @ x # post" using split by simp
      moreover from dvo \<open>v_ordered = p @ w # m @ x # q\<close> have "distinct ((p @ w # m) @ x # q)"
        by simp
      ultimately have "p @ w # m = pre" by (rule distinct_split_unique [rotated])
      then show "w \<in> fst ` set ([] :: ('a, vnode) dict) \<union> set pre" by auto
    qed
    from hash_loop_succeeds [OF lab pref, of "[]"] obtain s' where
      "hash_loop edges' labels' v_ordered ([], []) = Inr s'" by blast
    with ht show ?thesis by (cases s') simp
  qed
  have visits: "sort_by (rank_key ordering' labels') vs = Inr vo \<and> distinct vo \<and> set vo = set vs
               \<and> hash_loop edges' labels' vo ([], []) = Inr (ents, hm)
               \<and> (\<forall>u cs w. map_of edges' u = Some cs \<and> w \<in> set cs \<and> u \<in> set vs \<longrightarrow>
                     (\<exists>pre post ents_pre hm_pre r.
                         vo = pre @ u # post \<and> w \<in> set pre
                         \<and> hash_loop edges' labels' pre ([], []) = Inr (ents_pre, hm_pre)
                         \<and> map_of ents_pre w = Some r \<and> map_of ents_pre u = None
                         \<and> map_of ents w = Some r))"
    if h: "hash_trees (vertices', edges', ordering', labels') = Inr (ents, hm, vo)"
    for ents hm vo
  proof -
    from h ht have eq: "vo = v_ordered"
      and loop: "hash_loop edges' labels' v_ordered ([], []) = Inr (ents, hm)"
      by (auto split: sum.splits)
    have each: "\<exists>pre post ents_pre hm_pre r.
                         vo = pre @ u # post \<and> w \<in> set pre
                         \<and> hash_loop edges' labels' pre ([], []) = Inr (ents_pre, hm_pre)
                         \<and> map_of ents_pre w = Some r \<and> map_of ents_pre u = None
                         \<and> map_of ents w = Some r"
      if cs: "map_of edges' u = Some cs" and w: "w \<in> set cs" and u: "u \<in> set vs" for u cs w
    proof -
      from u svo have "u \<in> set v_ordered" by simp
      then obtain pre post where split: "v_ordered = pre @ u # post"
        by (auto simp: in_set_conv_decomp)
      from loop [unfolded split hash_loop_append] obtain ents_pre hm_pre where
        lpre: "hash_loop edges' labels' pre ([], []) = Inr (ents_pre, hm_pre)"
        and lrest: "hash_loop edges' labels' (u # post) (ents_pre, hm_pre) = Inr (ents, hm)"
        by (auto split: sum.splits)
      from lrest obtain s1 where
        st: "hash_vertex edges' labels' u (ents_pre, hm_pre) = Inr s1"
        by (auto split: sum.splits)
      from hash_vertex_child_entry [OF st cs w] obtain r where r: "map_of ents_pre w = Some r"
        by blast
      from hash_loop_keys [OF lpre] have keys: "fst ` set ents_pre = set pre" by simp
      from r have "w \<in> fst ` set ents_pre" by (auto simp: in_keys_iff)
      with keys have wp: "w \<in> set pre" by simp
      from dvo split have d: "distinct (u # post)" and disj: "set pre \<inter> set (u # post) = {}"
        by auto
      have fresh: "\<forall>v \<in> set (u # post). map_of ents_pre v = None"
      proof
        fix v assume "v \<in> set (u # post)"
        with disj keys have "v \<notin> fst ` set ents_pre" by auto
        then show "map_of ents_pre v = None" by (simp add: map_of_eq_None_iff)
      qed
      from hash_loop_canonical [OF lrest d fresh] r have "map_of ents w = Some r" by blast
      moreover from fresh have "map_of ents_pre u = None" by simp
      ultimately show ?thesis using split eq wp lpre r by blast
    qed
    from vo eq dvo svo loop each show ?thesis by blast
  qed
  have raises: "hash_trees (vertices', edges', ordering', labels') = Inl KeyError"
    if opened: "\<not> (\<forall>u cs w. map_of edges' u = Some cs \<and> u \<in> set vs \<and> w \<in> set cs \<longrightarrow> w \<in> set vs)"
  proof (cases "hash_loop edges' labels' v_ordered ([], [])")
    case (Inl e)
    from hash_loop_error [OF Inl] Inl ht show ?thesis by simp
  next
    case (Inr s)
    with ht have h: "hash_trees (vertices', edges', ordering', labels')
                     = Inr (fst s, snd s, v_ordered)"
      by (cases s) simp
    from opened obtain u cs w where e: "map_of edges' u = Some cs" "u \<in> set vs" "w \<in> set cs"
      and out: "w \<notin> set vs" by blast
    note v = visits [OF h, THEN conjunct2, THEN conjunct2, THEN conjunct2, THEN conjunct2,
                     rule_format]
    from e have "map_of edges' u = Some cs \<and> w \<in> set cs \<and> u \<in> set vs" by simp
    from v [OF this] obtain pre post where "v_ordered = pre @ u # post" "w \<in> set pre"
      by blast
    with svo have "w \<in> set vs" by auto
    with out show ?thesis by simp
  qed
  have outcome:
    "if (\<forall>u cs w. map_of edges' u = Some cs \<and> u \<in> set vs \<and> w \<in> set cs \<longrightarrow> w \<in> set vs)
     then (\<exists>ents hm vo. hash_trees (vertices', edges', ordering', labels') = Inr (ents, hm, vo))
     else hash_trees (vertices', edges', ordering', labels') = Inl KeyError"
  proof (cases "\<forall>u cs w. map_of edges' u = Some cs \<and> u \<in> set vs \<and> w \<in> set cs \<longrightarrow> w \<in> set vs")
    case True
    from returns [OF True] show ?thesis unfolding if_P [OF True] .
  next
    case False
    from raises [OF False] show ?thesis unfolding if_not_P [OF False] .
  qed
  have order: "\<forall>ents hm vo.
               hash_trees (vertices', edges', ordering', labels') = Inr (ents, hm, vo) \<longrightarrow>
               sort_by (rank_key ordering' labels') vs = Inr vo \<and> distinct vo \<and> set vo = set vs
               \<and> hash_loop edges' labels' vo ([], []) = Inr (ents, hm)
               \<and> (\<forall>u cs w. map_of edges' u = Some cs \<and> w \<in> set cs \<and> u \<in> set vs \<longrightarrow>
                     (\<exists>pre post ents_pre hm_pre r.
                         vo = pre @ u # post \<and> w \<in> set pre
                         \<and> hash_loop edges' labels' pre ([], []) = Inr (ents_pre, hm_pre)
                         \<and> map_of ents_pre w = Some r \<and> map_of ents_pre u = None
                         \<and> map_of ents w = Some r))"
    by (intro allI impI) (rule visits)
  from outcome order show ?thesis by (rule conjI)
qed

theorem children_visited_first_witness:
  "odd_dag (PySet [0, 1, 2, 3] :: (nat, unit) vcoll)
       [(0, [1, 2]), (1, [3]), (2, [3]), (3, [])]
       [(0, ''a''), (1, ''b''), (2, ''b''), (3, ''c'')]
     = Inr (PySet [0, 1, 2, 3], [(0, [2, 1]), (1, [3]), (2, [3]), (3, [])],
            [(0, 4), (1, 3), (2, 2), (3, 1)], [(0, ''a''), (1, ''b''), (2, ''b''), (3, ''c'')])
   \<and> hash_trees (PySet [0, 1, 2, 3] :: (nat, unit) vcoll,
                  [(0, [2, 1]), (1, [3]), (2, [3]), (3, [])],
                  [(0, 4), (1, 3), (2, 2), (3, 1)],
                  [(0, ''a''), (1, ''b''), (2, ''b''), (3, ''c'')])
     = Inr ([(3, \<lparr>depth = 0, occ = 1, ident = ''c''\<rparr>),
             (2, \<lparr>depth = 1, occ = 1, ident = ''b(c)''\<rparr>),
             (1, \<lparr>depth = 1, occ = 1, ident = ''b(c)''\<rparr>),
             (0, \<lparr>depth = 4, occ = 1, ident = ''a(b(c),b(c))''\<rparr>)],
            [(''c'', [3]), (''b(c)'', [2, 1]), (''a(b(c),b(c))'', [0])],
            [3, 2, 1, 0])
   \<and> (\<exists>pre post ents_pre hm_pre.
         [3::nat, 2, 1, 0] = pre @ 0 # post \<and> 2 \<in> set pre
         \<and> hash_loop [(0::nat, [2, 1]), (1, [3]), (2, [3]), (3, [])]
               [(0, ''a''), (1, ''b''), (2, ''b''), (3, ''c'')] pre ([], [])
             = Inr (ents_pre, hm_pre)
         \<and> map_of ents_pre 2 = Some \<lparr>depth = 1, occ = 1, ident = ''b(c)''\<rparr>
         \<and> map_of ents_pre 0 = None)"
proof -
  let ?ls = "[(0::nat, ''a''), (1, ''b''), (2, ''b''), (3, ''c'')]"
  let ?ranks = "[(0::nat, 4::int), (1, 3), (2, 2), (3, 1)]"
  let ?es = "[(0::nat, [2::nat, 1]), (1, [3]), (2, [3]), (3, [])]"
  let ?ents = "[(3::nat, \<lparr>depth = 0, occ = 1, ident = ''c''\<rparr>),
                (2, \<lparr>depth = 1, occ = 1, ident = ''b(c)''\<rparr>),
                (1, \<lparr>depth = 1, occ = 1, ident = ''b(c)''\<rparr>),
                (0, \<lparr>depth = 4, occ = 1, ident = ''a(b(c),b(c))''\<rparr>)]"
  let ?hm = "[(''c'', [3::nat]), (''b(c)'', [2, 1]), (''a(b(c),b(c))'', [0])]"
  have o: "odd_dag (PySet [0, 1, 2, 3] :: (nat, unit) vcoll)
       [(0, [1, 2]), (1, [3]), (2, [3]), (3, [])] ?ls
     = Inr (PySet [0, 1, 2, 3], ?es, ?ranks, ?ls)"
    by code_simp
  have m: "members (PySet [0, 1, 2, 3] :: (nat, unit) vcoll) = Inr [0, 1, 2, 3]"
    by (simp add: members_def)
  have d1: "distinct [0::nat, 1, 2, 3]" by simp
  have d2: "distinct (map fst [(0::nat, [1::nat, 2]), (1, [3]), (2, [3]), (3, [])])" by simp
  have h: "hash_trees (PySet [0, 1, 2, 3] :: (nat, unit) vcoll, ?es, ?ranks, ?ls)
           = Inr (?ents, ?hm, [3, 2, 1, 0])"
    by code_simp
  note visited = children_visited_first [OF o m d1 d2, THEN conjunct2, rule_format, OF h,
      THEN conjunct2, THEN conjunct2, THEN conjunct2, THEN conjunct2, rule_format,
      of 0 "[2, 1]" 2]
  have "map_of ?es 0 = Some [2, 1] \<and> 2 \<in> set [2::nat, 1] \<and> 0 \<in> set [0::nat, 1, 2, 3]"
    by simp
  from visited [OF this] obtain pre post ents_pre hm_pre r where
    v: "[3::nat, 2, 1, 0] = pre @ 0 # post" "2 \<in> set pre"
       "hash_loop ?es ?ls pre ([], []) = Inr (ents_pre, hm_pre)"
       "map_of ents_pre 2 = Some r" "map_of ents_pre 0 = None" "map_of ?ents 2 = Some r"
    by blast
  from v(6) have "r = \<lparr>depth = 1, occ = 1, ident = ''b(c)''\<rparr>" by simp
  with v have "\<exists>pre post ents_pre hm_pre.
         [3::nat, 2, 1, 0] = pre @ 0 # post \<and> 2 \<in> set pre
         \<and> hash_loop ?es ?ls pre ([], []) = Inr (ents_pre, hm_pre)
         \<and> map_of ents_pre 2 = Some \<lparr>depth = 1, occ = 1, ident = ''b(c)''\<rparr>
         \<and> map_of ents_pre 0 = None"
    by blast
  with o h show ?thesis by (intro conjI)
qed

subsection \<open>C5: folding the same DAG twice\<close>

text \<open>A frequency doubled.\<close>

fun twice :: "freq \<Rightarrow> freq" where
  "twice (Scalar n) = Scalar (2 * n)"
| "twice (Vector fs) = Vector (map (\<lambda>n. 2 * n) fs)"

text \<open>The occurrences the vertices \<open>qs\<close> contribute to the identity \<open>k\<close>.\<close>

definition occurrences :: "('q, vnode) dict \<Rightarrow> 'q list \<Rightarrow> string \<Rightarrow> int" where
  "occurrences vertices qs k =
     sum_list (map (\<lambda>q. case map_of vertices q of
                            None \<Rightarrow> 0
                          | Some r \<Rightarrow> if ident r = k then occ r else 0) qs)"

lemma occurrences_snoc:
  "map_of vertices q = Some r \<Longrightarrow>
   occurrences vertices (pre @ [q]) k
     = occurrences vertices pre k + (if ident r = k then occ r else 0)"
  by (simp add: occurrences_def)

lemma occurrences_absent:
  "(\<And>q r. q \<in> set pre \<Longrightarrow> map_of vertices q = Some r \<Longrightarrow> ident r \<noteq> k) \<Longrightarrow>
   occurrences vertices pre k = 0"
  unfolding occurrences_def
  by (induction pre) (auto split: option.splits)

text \<open>
  The Big DAG after folding the vertices \<open>pre\<close> into the empty one, features merged: the node
  indices are \<open>0, ..., idx - 1\<close>; every node carries the occurrences of its identity and is
  the node its identity is mapped to; every identity mapped belongs to a node; every vertex
  folded has its identity mapped.
\<close>

definition merged :: "('q, vnode) dict \<Rightarrow> 'q list \<Rightarrow> big_dag \<Rightarrow> nat \<Rightarrow> bool" where
  "merged vertices pre D idx \<longleftrightarrow>
     map fst (D_vertices D) = [0..<idx]
     \<and> (\<forall>n b. map_of (D_vertices D) n = Some b \<longrightarrow>
           slot1 b = Scalar (occurrences vertices pre (slot2 b))
           \<and> map_of (D_hash_map D) (slot2 b) = Some [n])
     \<and> (\<forall>k ns. map_of (D_hash_map D) k = Some ns \<longrightarrow>
           (\<exists>n b. ns = [n] \<and> map_of (D_vertices D) n = Some b \<and> slot2 b = k))
     \<and> (\<forall>q. q \<in> set pre \<longrightarrow>
           (\<exists>r ns. map_of vertices q = Some r \<and> map_of (D_hash_map D) (ident r) = Some ns))"

lemma merged_step:
  assumes st: "big_dag_step True nf vertices edges labels q (D, idx) = Inr (D', idx')"
    and inv: "merged vertices pre D idx"
  shows "merged vertices (pre @ [q]) D' idx'"
proof -
  from st obtain r where r: "map_of vertices q = Some r"
    by (auto simp: big_dag_step_def split: option.splits)
  let ?k = "ident r"
  from inv have keys: "map fst (D_vertices D) = [0..<idx]"
    and fr: "\<And>n b. map_of (D_vertices D) n = Some b \<Longrightarrow>
           slot1 b = Scalar (occurrences vertices pre (slot2 b))
           \<and> map_of (D_hash_map D) (slot2 b) = Some [n]"
    and hm: "\<And>k ns. map_of (D_hash_map D) k = Some ns \<Longrightarrow>
           \<exists>n b. ns = [n] \<and> map_of (D_vertices D) n = Some b \<and> slot2 b = k"
    and seen: "\<And>q. q \<in> set pre \<Longrightarrow>
           \<exists>r ns. map_of vertices q = Some r \<and> map_of (D_hash_map D) (ident r) = Some ns"
    unfolding merged_def by blast+
  show ?thesis
  proof (cases "map_of (D_hash_map D) ?k")
    case (Some ns)
    from hm [OF Some] obtain node b where ns: "ns = [node]"
      and b: "map_of (D_vertices D) node = Some b" and bk: "slot2 b = ?k" by blast
    from fr [OF b] bk have bf: "slot1 b = Scalar (occurrences vertices pre ?k)" by simp
    let ?b' = "b\<lparr>slot1 := Scalar (occurrences vertices pre ?k + occ r)\<rparr>"
    from st r Some ns b bf
    have D': "D' = D\<lparr>D_vertices := AList.update node ?b' (D_vertices D)\<rparr>" and idx': "idx' = idx"
      by (auto simp: big_dag_step_def add_freq_def)
    from b have "(node, b) \<in> set (D_vertices D)" by (rule map_of_SomeD)
    then have "node \<in> fst ` set (D_vertices D)" by force
    then have "map fst (AList.update node ?b' (D_vertices D)) = map fst (D_vertices D)"
      by (simp add: update_keys)
    with keys D' idx' have k1: "map fst (D_vertices D') = [0..<idx']" by simp
    have f1: "slot1 c = Scalar (occurrences vertices (pre @ [q]) (slot2 c))
           \<and> map_of (D_hash_map D') (slot2 c) = Some [n]"
      if c: "map_of (D_vertices D') n = Some c" for n c
    proof (cases "n = node")
      case True
      with c D' have "c = ?b'" by (simp add: update_conv')
      with True bk Some ns D' r show ?thesis by (simp add: occurrences_snoc)
    next
      case False
      with c D' have c0: "map_of (D_vertices D) n = Some c" by (simp add: update_conv')
      from fr [OF c0] Some ns False have "slot2 c \<noteq> ?k" by auto
      with fr [OF c0] D' r show ?thesis by (simp add: occurrences_snoc)
    qed
    have h1: "\<exists>n c. ms = [n] \<and> map_of (D_vertices D') n = Some c \<and> slot2 c = k"
      if "map_of (D_hash_map D') k = Some ms" for k ms
    proof -
      from that D' have "map_of (D_hash_map D) k = Some ms" by simp
      from hm [OF this] obtain n c where n: "ms = [n]" "map_of (D_vertices D) n = Some c" "slot2 c = k"
        by blast
      show ?thesis
      proof (cases "n = node")
        case True
        with n b D' show ?thesis by (auto simp: update_conv')
      next
        case False
        with n D' show ?thesis by (auto simp: update_conv')
      qed
    qed
    have s1: "\<exists>r ns. map_of vertices x = Some r \<and> map_of (D_hash_map D') (ident r) = Some ns"
      if "x \<in> set (pre @ [q])" for x
      using that seen r Some D' by auto
    from k1 f1 h1 s1 show ?thesis unfolding merged_def by blast
  next
    case None
    from st r None obtain l d_edges where
      D': "D' = \<lparr>D_vertices = AList.update idx
                     \<lparr>slot0 = occ r, slot1 = Scalar (occ r), slot2 = ?k\<rparr> (D_vertices D),
                 D_hash_map = AList.update ?k [idx] (D_hash_map D),
                 D_edges = AList.update idx d_edges (D_edges D),
                 D_labels = AList.update idx l (D_labels D)\<rparr>"
      and idx': "idx' = idx + 1"
      by (auto simp: big_dag_step_def split: option.splits sum.splits)
    have zero: "occurrences vertices pre ?k = 0"
    proof (rule occurrences_absent)
      fix x rx
      assume "x \<in> set pre" "map_of vertices x = Some rx"
      with seen [of x] None show "ident rx \<noteq> ?k" by auto
    qed
    have fresh: "idx \<notin> fst ` set (D_vertices D)"
    proof -
      have "fst ` set (D_vertices D) = set (map fst (D_vertices D))" by simp
      with keys show ?thesis by simp
    qed
    then have none: "map_of (D_vertices D) idx = None" by (simp add: map_of_eq_None_iff)
    from fresh have "map fst (AList.update idx
                     \<lparr>slot0 = occ r, slot1 = Scalar (occ r), slot2 = ?k\<rparr> (D_vertices D))
                   = map fst (D_vertices D) @ [idx]"
      by (simp add: update_keys)
    with keys D' idx' have k1: "map fst (D_vertices D') = [0..<idx']" by simp
    have f1: "slot1 c = Scalar (occurrences vertices (pre @ [q]) (slot2 c))
           \<and> map_of (D_hash_map D') (slot2 c) = Some [n]"
      if c: "map_of (D_vertices D') n = Some c" for n c
    proof (cases "n = idx")
      case True
      with c D' have "c = \<lparr>slot0 = occ r, slot1 = Scalar (occ r), slot2 = ?k\<rparr>"
        by (simp add: update_conv')
      with True D' r zero show ?thesis by (simp add: occurrences_snoc update_conv')
    next
      case False
      with c D' have c0: "map_of (D_vertices D) n = Some c" by (simp add: update_conv')
      from fr [OF c0] None have "slot2 c \<noteq> ?k" by auto
      with fr [OF c0] D' r show ?thesis by (simp add: occurrences_snoc update_conv')
    qed
    have h1: "\<exists>n c. ms = [n] \<and> map_of (D_vertices D') n = Some c \<and> slot2 c = k"
      if m: "map_of (D_hash_map D') k = Some ms" for k ms
    proof (cases "k = ?k")
      case True
      with m D' show ?thesis by (auto simp: update_conv')
    next
      case False
      with m D' have "map_of (D_hash_map D) k = Some ms" by (simp add: update_conv')
      from hm [OF this] obtain n c where n: "ms = [n]" "map_of (D_vertices D) n = Some c" "slot2 c = k"
        by blast
      with none have "n \<noteq> idx" by auto
      with n D' show ?thesis by (auto simp: update_conv')
    qed
    have s1: "\<exists>r ns. map_of vertices x = Some r \<and> map_of (D_hash_map D') (ident r) = Some ns"
      if "x \<in> set (pre @ [q])" for x
    proof (cases "x \<in> set pre")
      case True
      from seen [OF this] obtain rx ns where "map_of vertices x = Some rx"
        "map_of (D_hash_map D) (ident rx) = Some ns" by blast
      with D' show ?thesis by (cases "ident rx = ?k") (auto simp: update_conv')
    next
      case False
      with that have "x = q" by simp
      with r D' show ?thesis by (auto simp: update_conv')
    qed
    from k1 f1 h1 s1 show ?thesis unfolding merged_def by blast
  qed
qed

lemma merged_loop:
  "big_dag_loop True nf vertices edges labels qs (D, idx) = Inr (D', idx') \<Longrightarrow>
   merged vertices pre D idx \<Longrightarrow> merged vertices (pre @ qs) D' idx'"
proof (induction qs arbitrary: D idx pre)
  case Nil
  then show ?case by simp
next
  case (Cons q qs)
  from Cons.prems(1) obtain D1 idx1 where
    st: "big_dag_step True nf vertices edges labels q (D, idx) = Inr (D1, idx1)"
    and rest: "big_dag_loop True nf vertices edges labels qs (D1, idx1) = Inr (D', idx')"
    by (auto split: sum.splits)
  from Cons.IH [OF rest merged_step [OF st Cons.prems(2)]] show ?case by simp
qed


text \<open>The nodes with their frequencies replaced by a count per identity.\<close>

definition recount :: "(string \<Rightarrow> int) \<Rightarrow> (nat, bnode) dict \<Rightarrow> (nat, bnode) dict" where
  "recount c vs = map (\<lambda>(n, b). (n, b\<lparr>slot1 := Scalar (c (slot2 b))\<rparr>)) vs"

lemma map_of_recount:
  "map_of (recount c vs) n = map_option (\<lambda>b. b\<lparr>slot1 := Scalar (c (slot2 b))\<rparr>) (map_of vs n)"
  unfolding recount_def by (induction vs) auto

lemma update_recount:
  assumes "distinct (map fst vs)" and "map_of vs node = Some b"
    and "\<And>m b'. (m, b') \<in> set vs \<Longrightarrow> m \<noteq> node \<Longrightarrow> c' (slot2 b') = c (slot2 b')"
  shows "AList.update node (b\<lparr>slot1 := Scalar (c' (slot2 b))\<rparr>) (recount c vs) = recount c' vs"
  using assms
proof (induction vs)
  case Nil
  then show ?case by simp
next
  case (Cons p vs)
  obtain m b' where p: "p = (m, b')" by (cases p)
  show ?case
  proof (cases "m = node")
    case True
    with Cons.prems(2) p have bb: "b' = b" by simp
    from Cons.prems(1) p True have notin: "node \<notin> fst ` set vs" by auto
    have "recount c vs = recount c' vs"
      unfolding recount_def
    proof (rule map_cong [OF refl])
      fix x
      assume x: "x \<in> set vs"
      obtain m' b'' where x': "x = (m', b'')" by (cases x)
      with x notin have "m' \<noteq> node" by force
      with Cons.prems(3) [of m' b''] x x' have "c' (slot2 b'') = c (slot2 b'')" by simp
      with x' show "(case x of (n, b) \<Rightarrow> (n, b\<lparr>slot1 := Scalar (c (slot2 b))\<rparr>))
                  = (case x of (n, b) \<Rightarrow> (n, b\<lparr>slot1 := Scalar (c' (slot2 b))\<rparr>))" by simp
    qed
    with True p bb show ?thesis by (simp add: recount_def)
  next
    case False
    with Cons.prems(2) p have b: "map_of vs node = Some b" by simp
    from Cons.prems(1) have d: "distinct (map fst vs)" by simp
    have "AList.update node (b\<lparr>slot1 := Scalar (c' (slot2 b))\<rparr>) (recount c vs) = recount c' vs"
      using Cons.prems(3) by (intro Cons.IH [OF d b]) auto
    moreover from Cons.prems(3) [of m b'] p False have "c' (slot2 b') = c (slot2 b')" by simp
    ultimately show ?thesis using p False by (simp add: recount_def)
  qed
qed

lemma second_step:
  assumes inv: "merged vertices qs D1 idx1" and q: "q \<in> set qs"
  shows "big_dag_step True nf vertices edges labels q
           (D1\<lparr>D_vertices := recount (\<lambda>k. occurrences vertices qs k + occurrences vertices pre k)
                               (D_vertices D1)\<rparr>, idx)
         = Inr (D1\<lparr>D_vertices :=
                     recount (\<lambda>k. occurrences vertices qs k + occurrences vertices (pre @ [q]) k)
                       (D_vertices D1)\<rparr>, idx)"
proof -
  let ?c = "\<lambda>k. occurrences vertices qs k + occurrences vertices pre k"
  let ?c' = "\<lambda>k. occurrences vertices qs k + occurrences vertices (pre @ [q]) k"
  from inv have keys: "map fst (D_vertices D1) = [0..<idx1]"
    and fr: "\<And>n b. map_of (D_vertices D1) n = Some b \<Longrightarrow>
           map_of (D_hash_map D1) (slot2 b) = Some [n]"
    and hm: "\<And>k ns. map_of (D_hash_map D1) k = Some ns \<Longrightarrow>
           \<exists>n b. ns = [n] \<and> map_of (D_vertices D1) n = Some b \<and> slot2 b = k"
    and seen: "\<And>q. q \<in> set qs \<Longrightarrow>
           \<exists>r ns. map_of vertices q = Some r \<and> map_of (D_hash_map D1) (ident r) = Some ns"
    unfolding merged_def by blast+
  from seen [OF q] obtain r ns where r: "map_of vertices q = Some r"
    and ns: "map_of (D_hash_map D1) (ident r) = Some ns" by blast
  from hm [OF ns] obtain node b where n1: "ns = [node]"
    and b: "map_of (D_vertices D1) node = Some b" and bk: "slot2 b = ident r" by blast
  have dist: "distinct (map fst (D_vertices D1))" using keys by simp
  have other: "?c' (slot2 b') = ?c (slot2 b')" if "(m, b') \<in> set (D_vertices D1)" "m \<noteq> node"
    for m b'
  proof -
    from that(1) dist have "map_of (D_vertices D1) m = Some b'" by simp
    from fr [OF this] ns n1 that(2) have "slot2 b' \<noteq> ident r" by auto
    with r show ?thesis by (simp add: occurrences_snoc)
  qed
  have "AList.update node (b\<lparr>slot1 := Scalar (?c' (slot2 b))\<rparr>) (recount ?c (D_vertices D1))
          = recount ?c' (D_vertices D1)"
    using dist b other by (rule update_recount)
  moreover have "?c' (slot2 b) = ?c (slot2 b) + occ r"
    using bk r by (simp add: occurrences_snoc)
  ultimately show ?thesis
    using r ns n1 b bk
    by (simp add: big_dag_step_def map_of_recount add_freq_def add.assoc)
qed

lemma second_loop:
  assumes inv: "merged vertices qs D1 idx1"
  shows "set ps \<subseteq> set qs \<Longrightarrow>
     big_dag_loop True nf vertices edges labels ps
           (D1\<lparr>D_vertices := recount (\<lambda>k. occurrences vertices qs k + occurrences vertices pre k)
                               (D_vertices D1)\<rparr>, idx)
         = Inr (D1\<lparr>D_vertices :=
                     recount (\<lambda>k. occurrences vertices qs k + occurrences vertices (pre @ ps) k)
                       (D_vertices D1)\<rparr>, idx)"
proof (induction ps arbitrary: pre)
  case Nil
  then show ?case by simp
next
  case (Cons q ps)
  then have q: "q \<in> set qs" and ps: "set ps \<subseteq> set qs" by simp_all
  from second_step [OF inv q, of nf edges labels pre idx] Cons.IH [OF ps, of "pre @ [q]"]
  show ?case by simp
qed

lemma merged_recount:
  assumes "merged vertices qs D1 idx1"
  shows "recount (\<lambda>k. c k) (D_vertices D1)
         = map (\<lambda>(n, b). (n, b\<lparr>slot1 := Scalar (c (slot2 b))\<rparr>)) (D_vertices D1)"
    and "(n, b) \<in> set (D_vertices D1) \<Longrightarrow> slot1 b = Scalar (occurrences vertices qs (slot2 b))"
proof -
  show "recount (\<lambda>k. c k) (D_vertices D1)
         = map (\<lambda>(n, b). (n, b\<lparr>slot1 := Scalar (c (slot2 b))\<rparr>)) (D_vertices D1)"
    by (simp add: recount_def)
  assume m: "(n, b) \<in> set (D_vertices D1)"
  from assms have "distinct (map fst (D_vertices D1))" by (simp add: merged_def)
  with m have "map_of (D_vertices D1) n = Some b" by simp
  with assms show "slot1 b = Scalar (occurrences vertices qs (slot2 b))"
    unfolding merged_def by blast
qed

text \<open>
  C5. Folding the same DAG into the empty Big DAG twice, features merged, gives the global
  nodes of folding it once (the same identities, node indices, labels and edge lists), with
  every frequency doubled.
\<close>

theorem fold_twice_doubles:
  assumes "big_dag_append dag' None True = Inr D1"
  shows "big_dag_append dag' (Some D1) True
         = Inr (D1\<lparr>D_vertices := map (\<lambda>(n, b). (n, b\<lparr>slot1 := twice (slot1 b)\<rparr>)) (D_vertices D1)\<rparr>)"
proof -
  obtain vertices vertices_hash_map v_ordered edges labels where
    dag': "dag' = (vertices, vertices_hash_map, v_ordered, edges, labels)" by (cases dag')
  with assms obtain idx1 where
    first: "big_dag_loop True 1 vertices edges labels v_ordered (empty_big_dag, 0) = Inr (D1, idx1)"
    by (auto simp: big_dag_append_def big_dag_init_def split: sum.splits)
  have "merged vertices [] empty_big_dag 0" by (simp add: merged_def empty_big_dag_def)
  from merged_loop [OF first this] have inv: "merged vertices v_ordered D1 idx1" by simp
  let ?occ = "occurrences vertices v_ordered"
  have same: "recount (\<lambda>k. ?occ k + occurrences vertices [] k) (D_vertices D1) = D_vertices D1"
    unfolding recount_def
  proof (rule map_idI)
    fix x
    assume x: "x \<in> set (D_vertices D1)"
    obtain n b where x': "x = (n, b)" by (cases x)
    with x merged_recount(2) [OF inv] have "slot1 b = Scalar (?occ (slot2 b))" by blast
    with x' show "(case x of (n, b) \<Rightarrow>
            (n, b\<lparr>slot1 := Scalar (?occ (slot2 b) + occurrences vertices [] (slot2 b))\<rparr>)) = x"
      by (simp add: occurrences_def)
  qed
  have doubled: "recount (\<lambda>k. ?occ k + occurrences vertices ([] @ v_ordered) k) (D_vertices D1)
        = map (\<lambda>(n, b). (n, b\<lparr>slot1 := twice (slot1 b)\<rparr>)) (D_vertices D1)"
    unfolding recount_def
  proof (rule map_cong [OF refl])
    fix x
    assume x: "x \<in> set (D_vertices D1)"
    obtain n b where x': "x = (n, b)" by (cases x)
    with x merged_recount(2) [OF inv] have "slot1 b = Scalar (?occ (slot2 b))" by blast
    with x' show "(case x of (n, b) \<Rightarrow>
            (n, b\<lparr>slot1 := Scalar (?occ (slot2 b) + occurrences vertices ([] @ v_ordered) (slot2 b))\<rparr>))
          = (case x of (n, b) \<Rightarrow> (n, b\<lparr>slot1 := twice (slot1 b)\<rparr>))"
      by simp
  qed
  from second_loop [OF inv subset_refl, of 1 edges labels "[]" "length (D_vertices D1)"]
  have "big_dag_loop True 1 vertices edges labels v_ordered (D1, length (D_vertices D1))
        = Inr (D1\<lparr>D_vertices := map (\<lambda>(n, b). (n, b\<lparr>slot1 := twice (slot1 b)\<rparr>)) (D_vertices D1)\<rparr>,
               length (D_vertices D1))"
    unfolding same doubled by simp
  with dag' show ?thesis by (simp add: big_dag_append_def big_dag_init_def)
qed

theorem fold_twice_doubles_witness:
  "big_dag_append square_dag None True
     = Inr \<lparr>D_vertices =
              [(0, \<lparr>slot0 = 1, slot1 = Scalar 1, slot2 = ''c''\<rparr>),
               (1, \<lparr>slot0 = 1, slot1 = Scalar 2, slot2 = ''b(c)''\<rparr>),
               (2, \<lparr>slot0 = 1, slot1 = Scalar 1, slot2 = ''a(b(c),b(c))''\<rparr>)],
            D_hash_map = [(''c'', [0]), (''b(c)'', [1]), (''a(b(c),b(c))'', [2])],
            D_edges = [(0, []), (1, [0]), (2, [1])],
            D_labels = [(0, ''c''), (1, ''b''), (2, ''a'')]\<rparr>
   \<and> big_dag_append square_dag
         (Some \<lparr>D_vertices =
              [(0, \<lparr>slot0 = 1, slot1 = Scalar 1, slot2 = ''c''\<rparr>),
               (1, \<lparr>slot0 = 1, slot1 = Scalar 2, slot2 = ''b(c)''\<rparr>),
               (2, \<lparr>slot0 = 1, slot1 = Scalar 1, slot2 = ''a(b(c),b(c))''\<rparr>)],
            D_hash_map = [(''c'', [0]), (''b(c)'', [1]), (''a(b(c),b(c))'', [2])],
            D_edges = [(0, []), (1, [0]), (2, [1])],
            D_labels = [(0, ''c''), (1, ''b''), (2, ''a'')]\<rparr>) True
     = Inr \<lparr>D_vertices =
              [(0, \<lparr>slot0 = 1, slot1 = Scalar 2, slot2 = ''c''\<rparr>),
               (1, \<lparr>slot0 = 1, slot1 = Scalar 4, slot2 = ''b(c)''\<rparr>),
               (2, \<lparr>slot0 = 1, slot1 = Scalar 2, slot2 = ''a(b(c),b(c))''\<rparr>)],
            D_hash_map = [(''c'', [0]), (''b(c)'', [1]), (''a(b(c),b(c))'', [2])],
            D_edges = [(0, []), (1, [0]), (2, [1])],
            D_labels = [(0, ''c''), (1, ''b''), (2, ''a'')]\<rparr>"
proof -
  have once: "big_dag_append square_dag None True
     = Inr \<lparr>D_vertices =
              [(0, \<lparr>slot0 = 1, slot1 = Scalar 1, slot2 = ''c''\<rparr>),
               (1, \<lparr>slot0 = 1, slot1 = Scalar 2, slot2 = ''b(c)''\<rparr>),
               (2, \<lparr>slot0 = 1, slot1 = Scalar 1, slot2 = ''a(b(c),b(c))''\<rparr>)],
            D_hash_map = [(''c'', [0]), (''b(c)'', [1]), (''a(b(c),b(c))'', [2])],
            D_edges = [(0, []), (1, [0]), (2, [1])],
            D_labels = [(0, ''c''), (1, ''b''), (2, ''a'')]\<rparr>"
    by code_simp
  from fold_twice_doubles [OF once] once show ?thesis by simp
qed

subsection \<open>C6: symmetry of the self-comparison matrix\<close>

lemma fill_matrix_cells:
  "fill_matrix vs offset pairs K = Inr K' \<Longrightarrow>
   length K' = length K
   \<and> (\<forall>a < length K. length (K' ! a) = length (K ! a))
   \<and> (\<forall>i j. offset \<le> i \<and> i - offset < length K \<and> j < length (K ! (i - offset)) \<longrightarrow>
         (if (i, j) \<in> set pairs then kernel_sum i j vs 0 = Inr (K' ! (i - offset) ! j)
          else K' ! (i - offset) ! j = K ! (i - offset) ! j))"
proof (induction pairs arbitrary: K)
  case Nil
  then show ?case by simp
next
  case (Cons p pairs)
  obtain i0 j0 where p: "p = (i0, j0)" by (cases p)
  from Cons.prems p obtain k where k: "kernel_sum i0 j0 vs 0 = Inr k"
    and rng: "offset \<le> i0" "i0 - offset < length K" "j0 < length (K ! (i0 - offset))"
    and rest: "fill_matrix vs offset pairs (K[i0 - offset := (K ! (i0 - offset))[j0 := k]]) = Inr K'"
    by (auto split: sum.splits if_splits)
  let ?K1 = "K[i0 - offset := (K ! (i0 - offset))[j0 := k]]"
  note IH = Cons.IH [OF rest]
  have len: "length K' = length K" using IH by simp
  have rows1: "length (?K1 ! a) = length (K ! a)" if "a < length K" for a
    using that by (cases "a = i0 - offset") simp_all
  have rows: "\<forall>a < length K. length (K' ! a) = length (K ! a)"
    using IH rows1 by simp
  have cells: "if (i, j) \<in> set (p # pairs) then kernel_sum i j vs 0 = Inr (K' ! (i - offset) ! j)
          else K' ! (i - offset) ! j = K ! (i - offset) ! j"
    if r: "offset \<le> i" "i - offset < length K" "j < length (K ! (i - offset))" for i j
  proof -
    from r rows1 have r1: "offset \<le> i \<and> i - offset < length ?K1 \<and> j < length (?K1 ! (i - offset))"
      by simp
    with IH have c: "if (i, j) \<in> set pairs then kernel_sum i j vs 0 = Inr (K' ! (i - offset) ! j)
          else K' ! (i - offset) ! j = ?K1 ! (i - offset) ! j" by blast
    show ?thesis
    proof (cases "(i, j) \<in> set pairs")
      case True
      with c show ?thesis by simp
    next
      case False
      with c have eq: "K' ! (i - offset) ! j = ?K1 ! (i - offset) ! j" by simp
      show ?thesis
      proof (cases "(i, j) = (i0, j0)")
        case True
        with eq rng k p show ?thesis by simp
      next
        case ne: False
        have "?K1 ! (i - offset) ! j = K ! (i - offset) ! j"
        proof (cases "i - offset = i0 - offset")
          case True
          with r rng have "i = i0" by simp
          with ne have "j \<noteq> j0" by simp
          with True rng show ?thesis by simp
        next
          case False
          then show ?thesis by simp
        qed
        with eq have "K' ! (i - offset) ! j = K ! (i - offset) ! j" by simp
        with ne False p show ?thesis by auto
      qed
    qed
  qed
  from len rows cells show ?case by blast
qed

lemma triu_nth:
  "i < length K \<Longrightarrow> j < length (K ! i) \<Longrightarrow>
   triu d K ! i ! j = (if i + d \<le> j then K ! i ! j else 0)"
  by (simp add: triu_def)

lemma triu_shape: "length (triu d K) = length K \<and> (\<forall>i < length K. length (triu d K ! i) = length (K ! i))"
  by (simp add: triu_def)

lemma transpose_square_nth:
  assumes "length A = n" and "\<forall>i < n. length (A ! i) = n" and "i < n" and "j < n"
  shows "transpose A ! i ! j = A ! j ! i" and "length (transpose A) = n"
    and "length (transpose A ! i) = n"
proof -
  have "transpose A = map (\<lambda>i. map (\<lambda>j. A ! j ! i) [0..<length A]) [0..<n]"
    using assms by (intro transpose_rectangle) auto
  with assms show "transpose A ! i ! j = A ! j ! i" "length (transpose A) = n"
    "length (transpose A ! i) = n" by simp_all
qed

text \<open>
  C6. Without a second collection the matrix \<^verbatim>\<open>odd_sth_matrix\<close> returns is symmetric,
  \<open>K[i,j] = K[j,i]\<close> for all valid \<open>i\<close> and \<open>j\<close>; the entries on and above the diagonal are
  the sums computed over the Big DAG, and the entries below mirror them.
\<close>

theorem self_matrix_symmetric:
  assumes "odd_sth_matrix Graphs_x None h = Inr K"
    and "i < length Graphs_x" and "j < length Graphs_x"
  shows "K ! i ! j = K ! j ! i
         \<and> (i \<le> j \<longrightarrow>
               (\<exists>D. big2Dag_of_graphs h Graphs_x None = Inr (Some D)
                    \<and> kernel_sum i j (D_vertices D) 0 = Inr (K ! i ! j)))"
proof -
  let ?n = "length Graphs_x"
  let ?pairs = "concat (map (\<lambda>i. map (\<lambda>j. (i, j)) [i..<?n]) [0..<?n])"
  let ?Z = "replicate ?n (replicate ?n (0::int))"
  from assms(1) obtain D K0 where
    D: "big2Dag_of_graphs h Graphs_x None = Inr (Some D)"
    and K0: "fill_matrix (D_vertices D) 0 ?pairs ?Z = Inr K0"
    and K: "K = matrix_add (triu 0 K0) (transpose (triu 1 K0))"
    by (auto simp: odd_sth_matrix_def Let_def split: sum.splits option.splits)
  note fm = fill_matrix_cells [OF K0]
  from fm have len: "length K0 = ?n" and rows: "\<forall>a < ?n. length (K0 ! a) = ?n"
    by simp_all
  have cells: "if (i, j) \<in> set ?pairs then kernel_sum i j (D_vertices D) 0 = Inr (K0 ! i ! j)
          else K0 ! i ! j = ?Z ! i ! j" if "i < ?n" "j < ?n" for i j
  proof -
    from that have "0 \<le> i \<and> i - 0 < length ?Z \<and> j < length (?Z ! (i - 0))" by simp
    with fm have "if (i, j) \<in> set ?pairs
          then kernel_sum i j (D_vertices D) 0 = Inr (K0 ! (i - 0) ! j)
          else K0 ! (i - 0) ! j = ?Z ! (i - 0) ! j" by blast
    then show ?thesis by (simp cong: if_cong)
  qed
  have t1: "length (triu 1 K0) = ?n" "\<forall>a < ?n. length (triu 1 K0 ! a) = ?n"
    using len rows triu_shape [of 1 K0] by simp_all
  have t0: "length (triu 0 K0) = ?n" "\<forall>a < ?n. length (triu 0 K0 ! a) = ?n"
    using len rows triu_shape [of 0 K0] by simp_all
  have entry: "K ! a ! b = (if a \<le> b then K0 ! a ! b else K0 ! b ! a)"
    if "a < ?n" "b < ?n" for a b
  proof -
    have "K ! a ! b = triu 0 K0 ! a ! b + transpose (triu 1 K0) ! a ! b"
      using that t0 transpose_square_nth(2,3) [OF t1 that] K
      by (simp add: matrix_add_def)
    also have "transpose (triu 1 K0) ! a ! b = triu 1 K0 ! b ! a"
      using transpose_square_nth(1) [OF t1 that] .
    finally show ?thesis using that len rows by (auto simp: triu_nth)
  qed
  have sym: "K ! i ! j = K ! j ! i" using entry assms(2,3) by (auto simp: le_antisym)
  have "kernel_sum i j (D_vertices D) 0 = Inr (K ! i ! j)" if "i \<le> j"
  proof -
    from that assms(2,3) have "(i, j) \<in> set ?pairs" by (auto intro!: bexI [of _ i])
    with cells [OF assms(2,3)] entry [OF assms(2,3)] that show ?thesis by simp
  qed
  with sym D show ?thesis by blast
qed

theorem self_matrix_symmetric_witness:
  "odd_sth_matrix [two_vertex_graph, square_graph] None None = Inr [[4, 7], [7, 40]]
   \<and> [[4, 7], [7, 40 :: int]] ! 0 ! 1 = [[4, 7], [7, 40]] ! 1 ! 0"
proof -
  have K: "odd_sth_matrix [two_vertex_graph, square_graph] None None = Inr [[4, 7], [7, 40]]"
    by code_simp
  from self_matrix_symmetric [OF K, of 0 1] K show ?thesis by simp
qed

subsection \<open>C7: what the orderer rejects\<close>

lemma sort_by_error: "sort_by key xs = Inl err \<Longrightarrow> err = KeyError"
  by (auto simp: sort_by_def split: option.splits)

lemma kahn_error:
  "kahn edges labels q indegrees ordering' visited_nodes = Inl err \<Longrightarrow> err \<noteq> ValueError"
proof (induction edges labels q indegrees ordering' visited_nodes rule: kahn.induct)
  case (1 edges labels q indegrees ordering' visited_nodes)
  from "1.prems" show ?case
    apply (subst (asm) kahn.simps)
    apply (auto split: if_splits sum.splits list.splits option.splits prod.splits
                dest: sort_by_error "1.IH")
    done
qed

lemma sort_edges_error: "sort_edges key es = Inl err \<Longrightarrow> err = KeyError"
  by (induction key es rule: sort_edges.induct)
     (auto split: sum.splits dest: sort_by_error)

text \<open>
  C7 as stated: the orderer raises an invalid-input error when the vertex collection has
  an unsupported type, and when the edge map references a vertex outside the vertex set.
  The second half fails: with the vertex set \<open>{0}\<close> and the edge \<open>0 \<rightarrow> 1\<close> the orderer
  returns, and ranks the outside vertex 1 as well.
\<close>

theorem odd_dag_outside_vertex_accepted:
  "odd_dag (PySet [0::nat] :: (nat, unit) vcoll) [(0, [1]), (1, [])] [(0, ''a''), (1, ''b'')]
     = Inr (PySet [0], [(0, [1]), (1, [])], [(0, 1), (1, 0)], [(0, ''a''), (1, ''b'')])"
  by code_simp

text \<open>
  C7 as amended: the orderer raises the invalid-input error \<open>ValueError\<close> exactly when its
  vertex collection is neither a set nor a dict; the edge map is never checked against the
  vertex set.
\<close>

theorem odd_dag_ValueError_iff:
  "odd_dag vertices edges labels = Inl ValueError \<longleftrightarrow> vertices = PyOther"
proof (cases vertices)
  case PyOther
  then show ?thesis by (simp add: odd_dag_def)
next
  case (PySet xs)
  then show ?thesis
    by (auto simp: odd_dag_def split: prod.splits sum.splits dest: kahn_error sort_edges_error)
next
  case (PyDict d)
  then show ?thesis
    by (auto simp: odd_dag_def split: prod.splits sum.splits dest: kahn_error sort_edges_error)
qed

theorem odd_dag_ValueError_witness:
  "odd_dag (PyOther :: (nat, unit) vcoll) [(0, [1])] [(0, ''a'')] = Inl ValueError
   \<and> odd_dag (PySet [0::nat] :: (nat, unit) vcoll) [(0, [1]), (1, [])] [(0, ''a''), (1, ''b'')]
       \<noteq> Inl ValueError"
  using odd_dag_ValueError_iff [of "PyOther :: (nat, unit) vcoll" "[(0::nat, [1])]" "[(0, ''a'')]"]
    odd_dag_ValueError_iff [of "PySet [0::nat] :: (nat, unit) vcoll" "[(0, [1]), (1, [])]"
      "[(0, ''a''), (1, ''b'')]"]
  by simp

subsection \<open>C8: a non-positive depth bound\<close>

text \<open>
  C8. A depth bound that is an explicit non-positive integer is rejected with an
  invalid-input error before the traversal begins. \<^verbatim>\<open>dag\<close> rejects it, but the kernel
  computation never hands the bound to \<^verbatim>\<open>dag\<close> (\<^verbatim>\<open>make_dag_odd\<close> passes \<^verbatim>\<open>h=None\<close>): with
  bound 0 it extracts the DAGs and returns a matrix.
\<close>

theorem zero_bound_not_rejected:
  "dag 0 two_vertex_graph (Some 0) = Inl ValueError
   \<and> make_dag_odd 0 two_vertex_graph (Some 0)
     = Inr (PySet [0, 1], [(0, [1]), (1, [])], [(0, 2), (1, 1)], [(0, ''a''), (1, ''b'')])
   \<and> odd_sth_matrix [two_vertex_graph] None (Some 0) = Inr [[4]]"
  by code_simp

subsection \<open>C9: the edges of the extracted DAG rise in level\<close>

text \<open>The invariants of the traversal: every queued vertex is recorded at its queued
  level; every edge kept goes to a vertex recorded at least one level higher; the edges
  collected for the current vertex go above its level.\<close>

definition recorded :: "('v, int) dict \<Rightarrow> ('v \<times> int) list \<Rightarrow> bool" where
  "recorded vs q = (\<forall>x L. (x, L) \<in> set q \<longrightarrow> map_of vs x = Some L)"

definition rising :: "('v, int) dict \<Rightarrow> ('v, 'v list) dict \<Rightarrow> bool" where
  "rising vs es =
     (\<forall>u cs n. map_of es u = Some cs \<and> n \<in> set cs \<longrightarrow>
        (\<exists>L Ln. map_of vs u = Some L \<and> map_of vs n = Some Ln \<and> L + 1 \<le> Ln))"

definition above :: "('v, int) dict \<Rightarrow> int \<Rightarrow> 'v list \<Rightarrow> bool" where
  "above vs level eu = (\<forall>n. n \<in> set eu \<longrightarrow> (\<exists>Ln. map_of vs n = Some Ln \<and> level + 1 \<le> Ln))"

lemma dag_visit_cases:
  obtains (new) "map_of vs n = None"
      and "dag_visit level n (vs, eu, q)
             = (AList.update n (level + 1) vs, eu @ [n], q @ [(n, level + 1)])"
    | (cross) ln where "map_of vs n = Some ln" and "level + 1 \<le> ln"
      and "dag_visit level n (vs, eu, q) = (vs, eu @ [n], q)"
    | (lower) ln where "map_of vs n = Some ln" and "ln < level + 1"
      and "dag_visit level n (vs, eu, q) = (vs, eu, q)"
proof (cases "map_of vs n")
  case None
  then show ?thesis by (auto simp: dag_visit_def intro: new)
next
  case (Some ln)
  show ?thesis
  proof (cases "level + 1 \<le> ln")
    case True
    with Some show ?thesis by (auto simp: dag_visit_def intro: cross)
  next
    case False
    with Some show ?thesis by (auto simp: dag_visit_def intro: lower)
  qed
qed

lemma dag_visit_fold_inv:
  assumes "fold (dag_visit level) ns (vs, eu, q) = (vs', eu', q')"
    and "recorded vs q" and "above vs level eu"
  shows "(\<forall>x L. map_of vs x = Some L \<longrightarrow> map_of vs' x = Some L)
         \<and> recorded vs' q' \<and> above vs' level eu'"
  using assms
proof (induction ns arbitrary: vs eu q)
  case Nil
  then show ?case by simp
next
  case (Cons n ns)
  show ?case
  proof (cases rule: dag_visit_cases [of vs n level eu q])
    case new
    let ?vs1 = "AList.update n (level + 1) vs"
    have mono: "map_of vs x = Some L \<Longrightarrow> map_of ?vs1 x = Some L" for x L
      using new(1) by (auto simp: update_conv')
    have r: "recorded ?vs1 (q @ [(n, level + 1)])"
      using Cons.prems(2) mono by (auto simp: recorded_def update_conv')
    have a: "above ?vs1 level (eu @ [n])"
      using Cons.prems(3) mono by (auto simp: above_def update_conv')
    from Cons.prems(1) new(2)
    have "fold (dag_visit level) ns (?vs1, eu @ [n], q @ [(n, level + 1)]) = (vs', eu', q')"
      by simp
    from Cons.IH [OF this r a] mono show ?thesis by blast
  next
    case (cross ln)
    have a: "above vs level (eu @ [n])"
      using Cons.prems(3) cross(1,2) by (auto simp: above_def)
    from Cons.prems(1) cross(3)
    have "fold (dag_visit level) ns (vs, eu @ [n], q) = (vs', eu', q')" by simp
    from Cons.IH [OF this Cons.prems(2) a] show ?thesis .
  next
    case (lower ln)
    from Cons.prems(1) lower(3)
    have "fold (dag_visit level) ns (vs, eu, q) = (vs', eu', q')" by simp
    from Cons.IH [OF this Cons.prems(2,3)] show ?thesis .
  qed
qed

lemma dag_loop_inv:
  "dag_loop g h q vs es = (levels, edges) \<Longrightarrow> recorded vs q \<Longrightarrow> rising vs es \<Longrightarrow>
   (\<forall>x L. map_of vs x = Some L \<longrightarrow> map_of levels x = Some L) \<and> rising levels edges"
proof (induction g h q vs es rule: dag_loop.induct)
  case (1 g h vertices edges')
  then show ?case by simp
next
  case (2 g h u level q vertices edges')
  show ?case
  proof (cases "level = h")
    case True
    with "2.prems" show ?thesis by simp
  next
    case False
    let ?eu0 = "case map_of edges' u of None \<Rightarrow> [] | Some eu \<Rightarrow> eu"
    obtain vs' eu' q' where f:
      "fold (dag_visit level) (neighbors g u) (vertices, ?eu0, q) = (vs', eu', q')"
      by (cases "fold (dag_visit level) (neighbors g u) (vertices, ?eu0, q)") auto
    have ul: "map_of vertices u = Some level" using "2.prems"(2) by (simp add: recorded_def)
    have rq: "recorded vertices q" using "2.prems"(2) by (simp add: recorded_def)
    have ab: "above vertices level ?eu0"
    proof (cases "map_of edges' u")
      case None
      then show ?thesis by (simp add: above_def)
    next
      case (Some eu)
      with "2.prems"(3) ul show ?thesis by (fastforce simp: rising_def above_def)
    qed
    from dag_visit_fold_inv [OF f rq ab]
    have mono: "\<And>x L. map_of vertices x = Some L \<Longrightarrow> map_of vs' x = Some L"
      and rq': "recorded vs' q'" and ab': "above vs' level eu'" by blast+
    have ri: "rising vs' (AList.update u eu' edges')"
      unfolding rising_def
    proof (intro allI impI, elim conjE)
      fix x cs n
      assume cs: "map_of (AList.update u eu' edges') x = Some cs" and n: "n \<in> set cs"
      show "\<exists>L Ln. map_of vs' x = Some L \<and> map_of vs' n = Some Ln \<and> L + 1 \<le> Ln"
      proof (cases "x = u")
        case True
        with cs have "cs = eu'" by (simp add: update_conv')
        with n ab' obtain Ln where "map_of vs' n = Some Ln" "level + 1 \<le> Ln"
          by (auto simp: above_def)
        with mono [OF ul] True show ?thesis by blast
      next
        case False
        with cs have "map_of edges' x = Some cs" by (simp add: update_conv')
        with "2.prems"(3) n obtain L Ln where
          "map_of vertices x = Some L" "map_of vertices n = Some Ln" "L + 1 \<le> Ln"
          unfolding rising_def by blast
        with mono show ?thesis by blast
      qed
    qed
    from "2.prems"(1) False f
    have "dag_loop g h q' vs' (AList.update u eu' edges') = (levels, edges)" by simp
    from "2.IH" [OF False f [symmetric] refl this rq' ri] mono show ?thesis by blast
  qed
qed

lemma rising_acyclic:
  assumes "rising levels edges"
  shows "acyclic {(u, n). \<exists>cs. map_of edges u = Some cs \<and> n \<in> set cs}"
proof -
  define lev where "lev x = (case map_of levels x of None \<Rightarrow> 0 | Some L \<Rightarrow> L)" for x
  let ?up = "{(u, n). lev u < lev n}"
  have "trans ?up" by (auto simp: trans_def)
  then have "?up\<^sup>+ = ?up" by (rule trancl_id)
  then have "acyclic ?up" by (auto simp: acyclic_def)
  moreover have "{(u, n). \<exists>cs. map_of edges u = Some cs \<and> n \<in> set cs} \<subseteq> ?up"
    using assms by (fastforce simp: rising_def lev_def)
  ultimately show ?thesis by (rule acyclic_subset)
qed

text \<open>
  C9. For a neighbour \<open>n\<close> of the current vertex at level \<open>L\<close>: an unseen \<open>n\<close> is recorded
  at \<open>L + 1\<close>, enqueued, and the edge is added; a seen \<open>n\<close> recorded at \<open>L + 1\<close> or more
  gets the edge and is not enqueued again; a seen \<open>n\<close> recorded below \<open>L + 1\<close> gets
  nothing. So every edge of the result goes from a vertex at some level \<open>L\<close> to a vertex
  recorded at \<open>L + 1\<close> or more, and the edges are acyclic.
\<close>

theorem dag_edges_rise:
  "(map_of vs n = None \<longrightarrow>
      dag_visit level n (vs, eu, q)
        = (AList.update n (level + 1) vs, eu @ [n], q @ [(n, level + 1)]))
   \<and> (\<forall>ln. map_of vs n = Some ln \<and> level + 1 \<le> ln \<longrightarrow>
         dag_visit level n (vs, eu, q) = (vs, eu @ [n], q))
   \<and> (\<forall>ln. map_of vs n = Some ln \<and> ln < level + 1 \<longrightarrow>
         dag_visit level n (vs, eu, q) = (vs, eu, q))
   \<and> (dag v g h = Inr (vertices, edges) \<longrightarrow>
        (\<exists>levels. map fst levels = vertices \<and> map_of levels v = Some (0::int)
            \<and> (\<forall>u cs n. map_of edges u = Some cs \<and> n \<in> set cs \<longrightarrow>
                  (\<exists>L Ln. map_of levels u = Some L \<and> map_of levels n = Some Ln \<and> L + 1 \<le> Ln)))
        \<and> acyclic {(u, n). \<exists>cs. map_of edges u = Some cs \<and> n \<in> set cs})"
proof (intro conjI impI allI)
  assume "map_of vs n = None"
  then show "dag_visit level n (vs, eu, q)
        = (AList.update n (level + 1) vs, eu @ [n], q @ [(n, level + 1)])"
    by (rule dag_visit_unseen)
next
  fix ln
  assume "map_of vs n = Some ln \<and> level + 1 \<le> ln"
  then show "dag_visit level n (vs, eu, q) = (vs, eu @ [n], q)"
    by (simp add: dag_visit_seen)
next
  fix ln
  assume "map_of vs n = Some ln \<and> ln < level + 1"
  then show "dag_visit level n (vs, eu, q) = (vs, eu, q)"
    by (simp add: dag_visit_seen)
next
  assume "dag v g h = Inr (vertices, edges)"
  then obtain hb levels where
    loop: "dag_loop g hb [(v, 0)] [(v, 0)] [] = (levels, edges)" and vs: "vertices = map fst levels"
    by (auto simp: dag_def split: sum.splits prod.splits)
  have "recorded [(v, 0)] [(v, 0)]" by (simp add: recorded_def)
  moreover have "rising [(v, 0)] []" by (simp add: rising_def)
  ultimately have "(\<forall>x L. map_of [(v, 0::int)] x = Some L \<longrightarrow> map_of levels x = Some L)
                   \<and> rising levels edges"
    by (rule dag_loop_inv [OF loop])
  then have v0: "map_of levels v = Some 0" and ri: "rising levels edges" by simp_all
  from ri have "\<forall>u cs n. map_of edges u = Some cs \<and> n \<in> set cs \<longrightarrow>
                  (\<exists>L Ln. map_of levels u = Some L \<and> map_of levels n = Some Ln \<and> L + 1 \<le> Ln)"
    unfolding rising_def .
  with vs v0 show "\<exists>levels. map fst levels = vertices \<and> map_of levels v = Some (0::int)
            \<and> (\<forall>u cs n. map_of edges u = Some cs \<and> n \<in> set cs \<longrightarrow>
                  (\<exists>L Ln. map_of levels u = Some L \<and> map_of levels n = Some Ln \<and> L + 1 \<le> Ln))"
    by blast
  show "acyclic {(u, n). \<exists>cs. map_of edges u = Some cs \<and> n \<in> set cs}"
    using ri by (rule rising_acyclic)
qed

theorem dag_edges_rise_witness:
  "dag 0 square_graph None = Inr ([0, 1, 2, 3], [(0, [1, 2]), (1, [3]), (2, [3]), (3, [])])
   \<and> dag_visit 0 (1::nat) ([(0, 0)], [], []) = ([(0, 0), (1, 1)], [1], [(1, 1)])
   \<and> dag_visit 1 (3::nat) ([(0, 0), (1, 1), (2, 1), (3, 2)], [], []) 
       = ([(0, 0), (1, 1), (2, 1), (3, 2)], [3], [])
   \<and> dag_visit 1 (0::nat) ([(0, 0), (1, 1), (2, 1)], [], [(2, 1)])
       = ([(0, 0), (1, 1), (2, 1)], [], [(2, 1)])
   \<and> acyclic {(u, n). \<exists>cs. map_of [(0::nat, [1, 2]), (1, [3]), (2, [3]), (3, [])] u = Some cs
                          \<and> n \<in> set cs}"
proof -
  have d: "dag 0 square_graph None = Inr ([0, 1, 2, 3], [(0, [1, 2]), (1, [3]), (2, [3]), (3, [])])"
    by code_simp
  note r = dag_edges_rise [where v = "0::nat" and g = square_graph and h = None
      and vertices = "[0, 1, 2, 3]" and edges = "[(0, [1, 2]), (1, [3]), (2, [3]), (3, [])]"]
  from r [of "[(0, 0)]" "1::nat" 0 "[]" "[]"]
    r [of "[(0, 0), (1, 1), (2, 1), (3, 2)]" "3::nat" 1 "[]" "[]"]
    r [of "[(0, 0), (1, 1), (2, 1)]" "0::nat" 1 "[]" "[(2, 1)]"]
    d
  show ?thesis by simp
qed

subsection \<open>C10: the Big DAG is updated in place\<close>










end
